theory Spec2Isabelle
  imports Complex_Main "HOL-Library.Word" "HOL-Library.Sublist" "HOL-Library.List_Lexorder"
begin

unbundle bit_operations_syntax

section \<open>The X template encoder \<^verbatim>\<open>tools/make_xftmpl.c\<close>\<close>

text \<open>
  A shallow embedding of the encoder. Conventions of the embedding:
  \<^item> the input stream \<^verbatim>\<open>FILE *infile\<close> is the list of bytes still to be read; a pushed
    back byte is put in front of it;
  \<^item> \<^verbatim>\<open>char\<close> is the signed 8-bit type of the x86 ABIs, so the value \<^verbatim>\<open>(char)EOF\<close> is
    the byte \<open>0xFF\<close>;
  \<^item> \<^verbatim>\<open>fatal_error\<close> ends the process: a function that may call it returns \<open>Inl\<close> of the
    error; a function of result \<^verbatim>\<open>BOOL\<close> returns it beside the state;
  \<^item> the output buffer is kept as the bytes copied into it so far (\<open>output_data\<close>)
    together with the two counters \<open>output_pos\<close> and \<open>output_size\<close> of the source, both
    \<^verbatim>\<open>UINT\<close>, as 32-bit words; \<^verbatim>\<open>realloc\<close> is taken to succeed; whether a copy stays
    inside the allocation is a property of the counters, stated by \<open>append_fits\<close>;
  \<^item> multi-byte values are stored in the byte order of the host, little-endian.
\<close>

subsection \<open>Token codes\<close>

type_synonym byte = "8 word"
type_synonym WORD = "16 word"
type_synonym DWORD = "32 word"

definition TOKEN_NAME :: WORD where "TOKEN_NAME = 1"
definition TOKEN_STRING :: WORD where "TOKEN_STRING = 2"
definition TOKEN_INTEGER :: WORD where "TOKEN_INTEGER = 3"
definition TOKEN_GUID :: WORD where "TOKEN_GUID = 5"
definition TOKEN_INTEGER_LIST :: WORD where "TOKEN_INTEGER_LIST = 6"
definition TOKEN_FLOAT_LIST :: WORD where "TOKEN_FLOAT_LIST = 7"
definition TOKEN_OBRACE :: WORD where "TOKEN_OBRACE = 10"
definition TOKEN_CBRACE :: WORD where "TOKEN_CBRACE = 11"
definition TOKEN_OPAREN :: WORD where "TOKEN_OPAREN = 12"
definition TOKEN_CPAREN :: WORD where "TOKEN_CPAREN = 13"
definition TOKEN_OBRACKET :: WORD where "TOKEN_OBRACKET = 14"
definition TOKEN_CBRACKET :: WORD where "TOKEN_CBRACKET = 15"
definition TOKEN_OANGLE :: WORD where "TOKEN_OANGLE = 16"
definition TOKEN_CANGLE :: WORD where "TOKEN_CANGLE = 17"
definition TOKEN_DOT :: WORD where "TOKEN_DOT = 18"
definition TOKEN_COMMA :: WORD where "TOKEN_COMMA = 19"
definition TOKEN_SEMICOLON :: WORD where "TOKEN_SEMICOLON = 20"
definition TOKEN_TEMPLATE :: WORD where "TOKEN_TEMPLATE = 31"
definition TOKEN_WORD :: WORD where "TOKEN_WORD = 40"
definition TOKEN_DWORD :: WORD where "TOKEN_DWORD = 41"
definition TOKEN_FLOAT :: WORD where "TOKEN_FLOAT = 42"
definition TOKEN_DOUBLE :: WORD where "TOKEN_DOUBLE = 43"
definition TOKEN_CHAR :: WORD where "TOKEN_CHAR = 44"
definition TOKEN_UCHAR :: WORD where "TOKEN_UCHAR = 45"
definition TOKEN_SWORD :: WORD where "TOKEN_SWORD = 46"
definition TOKEN_SDWORD :: WORD where "TOKEN_SDWORD = 47"
definition TOKEN_VOID :: WORD where "TOKEN_VOID = 48"
definition TOKEN_LPSTR :: WORD where "TOKEN_LPSTR = 49"
definition TOKEN_UNICODE :: WORD where "TOKEN_UNICODE = 50"
definition TOKEN_CSTRING :: WORD where "TOKEN_CSTRING = 51"
definition TOKEN_ARRAY :: WORD where "TOKEN_ARRAY = 52"

lemmas token_defs =
  TOKEN_NAME_def TOKEN_STRING_def TOKEN_INTEGER_def TOKEN_GUID_def TOKEN_INTEGER_LIST_def
  TOKEN_FLOAT_LIST_def TOKEN_OBRACE_def TOKEN_CBRACE_def TOKEN_OPAREN_def TOKEN_CPAREN_def
  TOKEN_OBRACKET_def TOKEN_CBRACKET_def TOKEN_OANGLE_def TOKEN_CANGLE_def TOKEN_DOT_def
  TOKEN_COMMA_def TOKEN_SEMICOLON_def TOKEN_TEMPLATE_def TOKEN_WORD_def TOKEN_DWORD_def
  TOKEN_FLOAT_def TOKEN_DOUBLE_def TOKEN_CHAR_def TOKEN_UCHAR_def TOKEN_SWORD_def
  TOKEN_SDWORD_def TOKEN_VOID_def TOKEN_LPSTR_def TOKEN_UNICODE_def TOKEN_CSTRING_def
  TOKEN_ARRAY_def

subsection \<open>State: \<^verbatim>\<open>struct parser\<close> and the static variables\<close>

text \<open>The size of the local buffers \<^verbatim>\<open>char buffer[512]\<close> and \<^verbatim>\<open>char name[512]\<close>.\<close>

definition BUFFER_SIZE :: nat where "BUFFER_SIZE = 512"

record parser =
  infile :: string
  line_no :: int

record globals =
  option_header :: bool
  option_inc_var_name :: "string option"
  option_inc_size_name :: "string option"
  option_outfile_name :: string
  output_data :: "byte list"
  output_pos :: DWORD
  output_size :: DWORD

datatype error =
    Truncated_GUID
  | Invalid_GUID string
  | Invalid_float_token
  | Invalid_integer_token
  | Invalid_comment_token
  | Line_too_long
  | Unterminated_string
  | Invalid_character char
  | Uninitialized_value
  | Variable_name_missing
  | Header_read_failed
  | Invalid_magic string
  | Unsupported_version string
  | Not_text_encoded
  | Unsupported_float_format string

subsection \<open>The character classes of \<^verbatim>\<open><ctype.h>\<close> in the C locale\<close>

definition EOF_char :: char where "EOF_char = CHR 0xFF"

definition isdigit :: "char \<Rightarrow> bool" where
  "isdigit c = (48 \<le> (of_char c :: nat) \<and> (of_char c :: nat) \<le> 57)"

definition isupper :: "char \<Rightarrow> bool" where
  "isupper c = (65 \<le> (of_char c :: nat) \<and> (of_char c :: nat) \<le> 90)"

definition islower :: "char \<Rightarrow> bool" where
  "islower c = (97 \<le> (of_char c :: nat) \<and> (of_char c :: nat) \<le> 122)"

definition isalpha :: "char \<Rightarrow> bool" where
  "isalpha c = (isupper c \<or> islower c)"

definition isalnum :: "char \<Rightarrow> bool" where
  "isalnum c = (isalpha c \<or> isdigit c)"

definition isspace :: "char \<Rightarrow> bool" where
  "isspace c = ((of_char c :: nat) = 32 \<or> (9 \<le> (of_char c :: nat) \<and> (of_char c :: nat) \<le> 13))"

definition isxdigit :: "char \<Rightarrow> bool" where
  "isxdigit c = (isdigit c
     \<or> (65 \<le> (of_char c :: nat) \<and> (of_char c :: nat) \<le> 70)
     \<or> (97 \<le> (of_char c :: nat) \<and> (of_char c :: nat) \<le> 102))"

definition tolower :: "char \<Rightarrow> char" where
  "tolower c = (if isupper c then char_of ((of_char c :: nat) + 32) else c)"

definition toupper :: "char \<Rightarrow> char" where
  "toupper c = (if islower c then char_of ((of_char c :: nat) - 32) else c)"

subsection \<open>Byte reader and pushback\<close>

text \<open>
  \<^verbatim>\<open>read_byte\<close>: \<^verbatim>\<open>fgetc\<close>, the byte stored through the pointer (at end of input the value
  \<^verbatim>\<open>(char)EOF\<close>), the line counter advanced on a newline, and the result \<^verbatim>\<open>c != EOF\<close>.
\<close>

definition read_byte :: "parser \<Rightarrow> bool \<times> char \<times> parser" where
  "read_byte p =
     (case infile p of
        [] \<Rightarrow> (False, EOF_char, p)
      | c # cs \<Rightarrow>
          (True, c, p\<lparr>infile := cs,
                      line_no := (if c = CHR 0x0A then line_no p + 1 else line_no p)\<rparr>))"

text \<open>
  \<^verbatim>\<open>unread_byte\<close>: the line counter goes back on a newline; \<^verbatim>\<open>ungetc\<close> pushes the byte
  back, except for the value \<^verbatim>\<open>EOF\<close> (the signed char \<open>0xFF\<close>), which it refuses.
\<close>

definition unread_byte :: "parser \<Rightarrow> char \<Rightarrow> parser" where
  "unread_byte p last_byte =
     (let p1 = (if last_byte = CHR 0x0A then p\<lparr>line_no := line_no p - 1\<rparr> else p)
      in if last_byte = EOF_char then p1 else p1\<lparr>infile := last_byte # infile p1\<rparr>)"

text \<open>
  \<^verbatim>\<open>read_bytes\<close>: \<^verbatim>\<open>fread\<close> of one item of \<open>sz\<close> bytes. With fewer bytes left the
  item is not read (result \<^verbatim>\<open>FALSE\<close>) and the stream is at its end.
\<close>

definition read_bytes :: "parser \<Rightarrow> nat \<Rightarrow> bool \<times> string \<times> parser" where
  "read_bytes p sz =
     (if sz \<le> length (infile p)
      then (True, take sz (infile p), p\<lparr>infile := drop sz (infile p)\<rparr>)
      else (False, infile p, p\<lparr>infile := []\<rparr>))"

subsection \<open>Output buffer\<close>

definition word_bytes :: "WORD \<Rightarrow> byte list" where
  "word_bytes w = [ucast w, ucast (drop_bit 8 w)]"

definition dword_bytes :: "DWORD \<Rightarrow> byte list" where
  "dword_bytes w = [ucast w, ucast (drop_bit 8 w), ucast (drop_bit 16 w), ucast (drop_bit 24 w)]"

definition string_bytes :: "string \<Rightarrow> byte list" where
  "string_bytes s = map of_char s"

text \<open>
  The first half of \<^verbatim>\<open>write_bytes\<close> (lines 171--176): when the bytes do not fit, the
  capacity becomes \<^verbatim>\<open>max( output_size * 2, size )\<close>. All arithmetic is \<^verbatim>\<open>UINT\<close>.
\<close>

definition grow_output :: "globals \<Rightarrow> DWORD \<Rightarrow> globals" where
  "grow_output g sz =
     (if output_pos g + sz > output_size g
      then g\<lparr>output_size := max (output_size g * 2) sz\<rparr>
      else g)"

text \<open>
  \<^verbatim>\<open>write_bytes\<close>: the growth step, then \<^verbatim>\<open>memcpy\<close> at \<open>output_pos\<close> and the advance of
  \<open>output_pos\<close>. The result of the source is \<^verbatim>\<open>TRUE\<close> (allocation succeeds).
  The function records the bytes handed to \<^verbatim>\<open>memcpy\<close> whether or not they fit in the
  capacity that the growth step chose. It describes a run of the source as long as
  \<open>append_fits\<close> (below) holds at each call; where it does not hold, the \<^verbatim>\<open>memcpy\<close> of the
  source writes past the allocation and the behaviour of the program is undefined.
\<close>

definition write_bytes :: "globals \<Rightarrow> byte list \<Rightarrow> globals" where
  "write_bytes g data =
     (let g1 = grow_output g (of_nat (length data))
      in g1\<lparr>output_data := output_data g1 @ data,
              output_pos := output_pos g1 + of_nat (length data)\<rparr>)"

definition write_byte :: "globals \<Rightarrow> byte \<Rightarrow> globals" where
  "write_byte g v = write_bytes g [v]"

definition write_word :: "globals \<Rightarrow> WORD \<Rightarrow> globals" where
  "write_word g v = write_bytes g (word_bytes v)"

definition write_dword :: "globals \<Rightarrow> DWORD \<Rightarrow> globals" where
  "write_dword g v = write_bytes g (dword_bytes v)"

subsection \<open>Keyword table\<close>

record keyword =
  word :: string
  token :: WORD

definition reserved_words :: "keyword list" where
  "reserved_words =
     [\<lparr>word = ''ARRAY'', token = TOKEN_ARRAY\<rparr>,
      \<lparr>word = ''CHAR'', token = TOKEN_CHAR\<rparr>,
      \<lparr>word = ''CSTRING'', token = TOKEN_CSTRING\<rparr>,
      \<lparr>word = ''DOUBLE'', token = TOKEN_DOUBLE\<rparr>,
      \<lparr>word = ''DWORD'', token = TOKEN_DWORD\<rparr>,
      \<lparr>word = ''FLOAT'', token = TOKEN_FLOAT\<rparr>,
      \<lparr>word = ''SDWORD'', token = TOKEN_SDWORD\<rparr>,
      \<lparr>word = ''STRING'', token = TOKEN_LPSTR\<rparr>,
      \<lparr>word = ''SWORD'', token = TOKEN_SWORD\<rparr>,
      \<lparr>word = ''TEMPLATE'', token = TOKEN_TEMPLATE\<rparr>,
      \<lparr>word = ''UCHAR'', token = TOKEN_UCHAR\<rparr>,
      \<lparr>word = ''UNICODE'', token = TOKEN_UNICODE\<rparr>,
      \<lparr>word = ''VOID'', token = TOKEN_VOID\<rparr>,
      \<lparr>word = ''WORD'', token = TOKEN_WORD\<rparr>]"

text \<open>
  \<^verbatim>\<open>strcasecmp\<close> on strings without a NUL byte (the end of the list is the terminator):
  the difference of the first two lower-cased bytes that differ, as unsigned chars.
\<close>

fun strcasecmp :: "string \<Rightarrow> string \<Rightarrow> int" where
  "strcasecmp [] [] = 0"
| "strcasecmp [] (y # ys) = - int (of_char (tolower y))"
| "strcasecmp (x # xs) [] = int (of_char (tolower x))"
| "strcasecmp (x # xs) (y # ys) =
     (if tolower x = tolower y then strcasecmp xs ys
      else int (of_char (tolower x)) - int (of_char (tolower y)))"

definition compare_names :: "string \<Rightarrow> keyword \<Rightarrow> int" where
  "compare_names a b = strcasecmp a (word b)"

text \<open>
  \<^verbatim>\<open>bsearch\<close> of the C library, as the binary search it is: the bounds \<open>l\<close> and \<open>u\<close>,
  the probe in the middle.
\<close>

function bsearch :: "string \<Rightarrow> keyword list \<Rightarrow> nat \<Rightarrow> nat \<Rightarrow> keyword option" where
  "bsearch key base l u =
     (if l < u then
        (let idx = (l + u) div 2; comparison = compare_names key (base ! idx)
         in if comparison < 0 then bsearch key base l idx
            else if comparison > 0 then bsearch key base (idx + 1) u
            else Some (base ! idx))
      else None)"
  by pat_completeness auto
termination
  by (relation "measure (\<lambda>(key, base, l, u). u - l)") auto

declare bsearch.simps [simp del]

definition parse_keyword :: "globals \<Rightarrow> string \<Rightarrow> bool \<times> globals" where
  "parse_keyword g name =
     (case bsearch name reserved_words 0 (length reserved_words) of
        None \<Rightarrow> (False, g)
      | Some keyword \<Rightarrow> (True, write_word g (token keyword)))"

subsection \<open>Names\<close>

text \<open>
  The loop of \<^verbatim>\<open>parse_name\<close>. \<open>name\<close> is the buffer filled so far and \<^verbatim>\<open>len\<close> its
  length. The result is the last value of \<^verbatim>\<open>c\<close>, the parser and the buffer.
\<close>

function name_loop :: "parser \<Rightarrow> string \<Rightarrow> char \<times> parser \<times> string" where
  "name_loop p name =
     (case read_byte p of (ok, c, p1) \<Rightarrow>
        if ok \<and> length name < BUFFER_SIZE \<and> (isalnum c \<or> c = CHR ''_'' \<or> c = CHR ''-'')
        then name_loop p1 (if length name + 1 < BUFFER_SIZE then name @ [c] else name)
        else (c, p1, name))"
  by pat_completeness auto
termination
  by (relation "measure (\<lambda>(p, name). length (infile p))")
     (auto simp: read_byte_def split: list.splits)

declare name_loop.simps [simp del]

definition parse_name :: "parser \<Rightarrow> globals \<Rightarrow> bool \<times> parser \<times> globals" where
  "parse_name p g =
     (case name_loop p [] of (c, p1, name) \<Rightarrow>
        (case parse_keyword g name of (found, g1) \<Rightarrow>
           if found then (True, unread_byte p1 c, g1)
           else (True, unread_byte p1 c,
                 write_bytes (write_dword (write_word g1 TOKEN_NAME) (of_nat (length name)))
                   (string_bytes name))))"

subsection \<open>The conversions of \<^verbatim>\<open>sscanf\<close>\<close>

text \<open>
  \<^verbatim>\<open>sscanf\<close> belongs to the C library. Its three conversions used by the encoder are written
  out here as the library documents them: white space is skipped before a conversion, a field
  width bounds the bytes a conversion reads (sign and \<^verbatim>\<open>0x\<close> prefix included), and a
  conversion that finds no digit fails. The result of a single conversion is \<^verbatim>\<open>EOF\<close> when
  the text ends before it, \<open>0\<close> when it fails and \<open>1\<close> when it succeeds.
\<close>

datatype 'a scanned = Scan_EOF | Scan_fail | Scan_ok 'a

definition digit_val :: "char \<Rightarrow> nat" where
  "digit_val c = of_char c - 48"

definition xdigit_val :: "char \<Rightarrow> nat" where
  "xdigit_val c =
     (if isdigit c then of_char c - 48
      else if isupper c then of_char c - 55
      else of_char c - 87)"

definition decimal :: "string \<Rightarrow> nat" where
  "decimal ds = foldl (\<lambda>a c. 10 * a + digit_val c) 0 ds"

definition hexadecimal :: "string \<Rightarrow> nat" where
  "hexadecimal ds = foldl (\<lambda>a c. 16 * a + xdigit_val c) 0 ds"

definition c_string :: "string \<Rightarrow> string" where
  "c_string buf = takeWhile (\<lambda>c. c \<noteq> CHR 0x00) buf"

text \<open>
  \<^verbatim>\<open>%d\<close> into an \<^verbatim>\<open>int\<close>: an optional sign and decimal digits, converted as \<^verbatim>\<open>strtol\<close>
  does (the 64-bit \<^verbatim>\<open>long\<close> saturates) and stored in 32 bits.
\<close>

definition scan_d :: "string \<Rightarrow> DWORD scanned" where
  "scan_d s =
     (case dropWhile isspace s of
        [] \<Rightarrow> Scan_EOF
      | c # cs \<Rightarrow>
          (case (if c = CHR ''-'' \<or> c = CHR ''+'' then cs else c # cs) of s1 \<Rightarrow>
             (case takeWhile isdigit s1 of
                [] \<Rightarrow> Scan_fail
              | d # ds \<Rightarrow>
                  Scan_ok (word_of_int
                    (if c = CHR ''-''
                     then max (- (2 ^ 63)) (- int (decimal (d # ds)))
                     else min (2 ^ 63 - 1) (int (decimal (d # ds))))))))"

text \<open>
  The binary32 value nearest to \<open>p / q\<close> (ties to even), as its bit pattern: the sign,
  the exponent of the binade (not below the subnormal one), the significand rounded to
  24 bits, saturating to infinity.
\<close>

fun bit_length :: "nat \<Rightarrow> nat" where
  "bit_length n = (if n = 0 then 0 else Suc (bit_length (n div 2)))"

declare bit_length.simps [simp del]

definition ge_pow2 :: "nat \<Rightarrow> nat \<Rightarrow> int \<Rightarrow> bool" where
  "ge_pow2 p q e = (if 0 \<le> e then q * 2 ^ nat e \<le> p else q \<le> p * 2 ^ nat (- e))"

definition round_half_even :: "nat \<Rightarrow> nat \<Rightarrow> nat" where
  "round_half_even num den =
     (if den < 2 * (num mod den) \<or> (2 * (num mod den) = den \<and> odd (num div den))
      then num div den + 1 else num div den)"

definition binary32_of_ratio :: "bool \<Rightarrow> nat \<Rightarrow> nat \<Rightarrow> DWORD" where
  "binary32_of_ratio negative p q =
     (let e1 = int (bit_length p) - int (bit_length q);
          e = (if ge_pow2 p q e1 then e1 else e1 - 1);
          eb = max e (- 126);
          k = eb - 23;
          m = (if 0 \<le> k then round_half_even p (q * 2 ^ nat k)
               else round_half_even (p * 2 ^ nat (- k)) q);
          bits = (if p = 0 then 0 else min 0x7F800000 (nat (eb + 126) * 2 ^ 23 + m))
      in (if negative then 0x80000000 else 0) + of_nat bits)"

text \<open>
  \<^verbatim>\<open>%f\<close> into a \<^verbatim>\<open>float\<close>, on text made of a sign, digits and a point (which is all
  \<^verbatim>\<open>parse_number\<close> stores): at least one digit is needed, and the decimal number read is
  rounded to binary32.
\<close>

definition scan_f :: "string \<Rightarrow> DWORD scanned" where
  "scan_f s =
     (case dropWhile isspace s of
        [] \<Rightarrow> Scan_EOF
      | c # cs \<Rightarrow>
          (case (if c = CHR ''-'' \<or> c = CHR ''+'' then cs else c # cs) of s1 \<Rightarrow>
             (case (takeWhile isdigit s1, dropWhile isdigit s1) of (ip, s2) \<Rightarrow>
                (case (case s2 of
                         [] \<Rightarrow> []
                       | c2 # s3 \<Rightarrow> if c2 = CHR ''.'' then takeWhile isdigit s3 else []) of fp \<Rightarrow>
                   if ip @ fp = [] then Scan_fail
                   else Scan_ok (binary32_of_ratio (c = CHR ''-'')
                                   (decimal (ip @ fp)) (10 ^ length fp))))))"

text \<open>
  \<^verbatim>\<open>%X\<close> with a field width, into an \<^verbatim>\<open>unsigned int\<close>: an optional sign, an optional
  \<^verbatim>\<open>0x\<close>, hexadecimal digits, no more than \<open>width\<close> bytes in all; the value is
  negated after a minus sign, as \<^verbatim>\<open>strtoul\<close> does. The result is the value and the text
  left, or \<open>None\<close> when the conversion fails.
\<close>

definition scan_x :: "nat \<Rightarrow> string \<Rightarrow> (DWORD \<times> string) option" where
  "scan_x width s =
     (case dropWhile isspace s of
        [] \<Rightarrow> None
      | c # cs \<Rightarrow>
          (case (if c = CHR ''-'' \<or> c = CHR ''+'' then (width - 1, cs) else (width, c # cs))
           of (w1, s1) \<Rightarrow>
             (case (case s1 of
                      [] \<Rightarrow> ([], w1, s1)
                    | c0 # r \<Rightarrow>
                        if w1 \<noteq> 0 \<and> c0 = CHR ''0'' then
                          (case r of
                             [] \<Rightarrow> ([c0], w1 - 1, r)
                           | x # r1 \<Rightarrow>
                               if w1 - 1 \<noteq> 0 \<and> tolower x = CHR ''x''
                               then ([c0], w1 - 2, r1) else ([c0], w1 - 1, r))
                        else ([], w1, s1))
              of (zero, w2, s2) \<Rightarrow>
                (case takeWhile isxdigit (take w2 s2) of ds \<Rightarrow>
                   if zero @ ds = [] then None
                   else Some (if c = CHR ''-'' then - of_nat (hexadecimal ds)
                              else of_nat (hexadecimal ds),
                              drop (length ds) s2)))))"

text \<open>
  A format is a list of directives: a byte to be matched, or \<^verbatim>\<open>%X\<close> with its width.
  \<open>sscanf_hex\<close> gives the values converted until the first failure; the result of
  \<^verbatim>\<open>sscanf\<close> is their number (or \<^verbatim>\<open>EOF\<close>, when the text ends before the first conversion).
\<close>

datatype directive = Literal char | Hex nat

fun sscanf_hex :: "directive list \<Rightarrow> string \<Rightarrow> DWORD list" where
  "sscanf_hex [] s = []"
| "sscanf_hex (Literal c # fmt) s =
     (case s of [] \<Rightarrow> [] | x # xs \<Rightarrow> if x = c then sscanf_hex fmt xs else [])"
| "sscanf_hex (Hex w # fmt) s =
     (case scan_x w s of None \<Rightarrow> [] | Some (v, rest) \<Rightarrow> v # sscanf_hex fmt rest)"

subsection \<open>GUIDs\<close>

text \<open>\<^verbatim>\<open>"<%08X-%04X-%04X-%02X%02X-%02X%02X%02X%02X%02X%02X>"\<close>\<close>

definition guidfmt :: "directive list" where
  "guidfmt =
     [Literal CHR ''<'', Hex 8, Literal CHR ''-'', Hex 4, Literal CHR ''-'', Hex 4,
      Literal CHR ''-'', Hex 2, Hex 2, Literal CHR ''-'',
      Hex 2, Hex 2, Hex 2, Hex 2, Hex 2, Hex 2, Literal CHR ''>'']"

text \<open>
  The 16 bytes of a \<^verbatim>\<open>GUID\<close>: \<^verbatim>\<open>Data1\<close> (32 bits), \<^verbatim>\<open>Data2\<close> and \<^verbatim>\<open>Data3\<close> (16 bits
  each, the low half of what was scanned) and the eight bytes of \<^verbatim>\<open>Data4\<close>.
\<close>

definition guid_bytes :: "DWORD \<Rightarrow> DWORD list \<Rightarrow> byte list" where
  "guid_bytes data1 tab =
     dword_bytes data1 @ word_bytes (ucast (tab ! 0)) @ word_bytes (ucast (tab ! 1))
     @ map ucast (drop 2 tab)"

definition parse_guid :: "parser \<Rightarrow> globals \<Rightarrow> error + bool \<times> parser \<times> globals" where
  "parse_guid p g =
     (case read_bytes p 37 of (ok, bytes, p1) \<Rightarrow>
        if \<not> ok then Inl Truncated_GUID
        else
          (case sscanf_hex guidfmt (c_string (CHR ''<'' # bytes)) of
             [] \<Rightarrow> Inl (Invalid_GUID (c_string (CHR ''<'' # bytes)))
           | data1 # tab \<Rightarrow>
               if length (data1 # tab) \<noteq> 11
               then Inl (Invalid_GUID (c_string (CHR ''<'' # bytes)))
               else Inr (True, p1,
                         write_bytes (write_word g TOKEN_GUID) (guid_bytes data1 tab))))"

subsection \<open>Numbers\<close>

function number_loop :: "parser \<Rightarrow> string \<Rightarrow> bool \<Rightarrow> char \<times> parser \<times> string \<times> bool" where
  "number_loop p buffer dot =
     (case read_byte p of (ok, c, p1) \<Rightarrow>
        if ok \<and> ((length buffer = 0 \<and> c = CHR ''-'') \<or> (\<not> dot \<and> c = CHR ''.'') \<or> isdigit c)
        then number_loop p1 (if length buffer + 1 < BUFFER_SIZE then buffer @ [c] else buffer)
               (dot \<or> c = CHR ''.'')
        else (c, p1, buffer, dot))"
  by pat_completeness auto
termination
  by (relation "measure (\<lambda>(p, buffer, dot). length (infile p))")
     (auto simp: read_byte_def split: list.splits)

declare number_loop.simps [simp del]

text \<open>
  \<^verbatim>\<open>parse_number\<close>. Only a result \<open>0\<close> of \<^verbatim>\<open>sscanf\<close> is fatal; after the result \<^verbatim>\<open>EOF\<close>
  (an empty buffer) the source would write a value it never set, which is the outcome
  \<open>Uninitialized_value\<close> here.
\<close>

definition parse_number :: "parser \<Rightarrow> globals \<Rightarrow> error + bool \<times> parser \<times> globals" where
  "parse_number p g =
     (case number_loop p [] False of (c, p1, buffer, dot) \<Rightarrow>
        if dot then
          (case scan_f (c_string buffer) of
             Scan_fail \<Rightarrow> Inl Invalid_float_token
           | Scan_EOF \<Rightarrow> Inl Uninitialized_value
           | Scan_ok v \<Rightarrow>
               Inr (True, unread_byte p1 c,
                    write_bytes (write_word g TOKEN_FLOAT) (dword_bytes v)))
        else
          (case scan_d (c_string buffer) of
             Scan_fail \<Rightarrow> Inl Invalid_integer_token
           | Scan_EOF \<Rightarrow> Inl Uninitialized_value
           | Scan_ok v \<Rightarrow>
               Inr (True, unread_byte p1 c, write_dword (write_word g TOKEN_INTEGER) v)))"

subsection \<open>Tokens\<close>

text \<open>The loop of the \<^verbatim>\<open>//\<close> comment: bytes are dropped up to the newline.\<close>

function comment_loop :: "parser \<Rightarrow> char \<times> parser" where
  "comment_loop p =
     (case read_byte p of (ok, c, p1) \<Rightarrow>
        if ok \<and> c \<noteq> CHR 0x0A then comment_loop p1 else (c, p1))"
  by pat_completeness auto
termination
  by (relation "measure (\<lambda>p. length (infile p))")
     (auto simp: read_byte_def split: list.splits)

declare comment_loop.simps [simp del]

text \<open>The loop of the \<^verbatim>\<open>#\<close> line.\<close>

function directive_loop :: "parser \<Rightarrow> string \<Rightarrow> char \<times> parser \<times> string" where
  "directive_loop p buffer =
     (case read_byte p of (ok, c, p1) \<Rightarrow>
        if ok \<and> c \<noteq> CHR 0x0A
        then directive_loop p1 (if length buffer + 1 < BUFFER_SIZE then buffer @ [c] else buffer)
        else (c, p1, buffer))"
  by pat_completeness auto
termination
  by (relation "measure (\<lambda>(p, buffer). length (infile p))")
     (auto simp: read_byte_def split: list.splits)

declare directive_loop.simps [simp del]

text \<open>The loop of the string literal.\<close>

function string_loop :: "parser \<Rightarrow> string \<Rightarrow> char \<times> parser \<times> string" where
  "string_loop p buffer =
     (case read_byte p of (ok, c, p1) \<Rightarrow>
        if ok \<and> c \<noteq> CHR 0x22
        then string_loop p1 (if length buffer + 1 < BUFFER_SIZE then buffer @ [c] else buffer)
        else (c, p1, buffer))"
  by pat_completeness auto
termination
  by (relation "measure (\<lambda>(p, buffer). length (infile p))")
     (auto simp: read_byte_def split: list.splits)

declare string_loop.simps [simp del]

text \<open>
  \<^verbatim>\<open>strtok\<close> with the delimiters \<^verbatim>\<open>" \t"\<close>: the next word and the text after the
  delimiter that ends it, or \<open>None\<close> when no word is left.
\<close>

definition is_delim :: "char \<Rightarrow> bool" where
  "is_delim c = (c = CHR '' '' \<or> c = CHR 0x09)"

definition strtok :: "string \<Rightarrow> (string \<times> string) option" where
  "strtok s =
     (case dropWhile is_delim s of
        [] \<Rightarrow> None
      | c # cs \<Rightarrow>
          Some (takeWhile (\<lambda>x. \<not> is_delim x) (c # cs),
                drop 1 (dropWhile (\<lambda>x. \<not> is_delim x) (c # cs))))"

text \<open>
  Lines 343--359 of \<^verbatim>\<open>parse_token\<close>: the words of the line, and the two pragmas
  \<^verbatim>\<open>#pragma xftmpl name\<close> and \<^verbatim>\<open>#pragma xftmpl size\<close>.
\<close>

definition pragma_directive :: "globals \<Rightarrow> string \<Rightarrow> globals" where
  "pragma_directive g buffer =
     (case strtok buffer of
        None \<Rightarrow> g
      | Some (tok1, r1) \<Rightarrow>
          if tok1 \<noteq> ''pragma'' then g
          else
            (case strtok r1 of
               None \<Rightarrow> g
             | Some (tok2, r2) \<Rightarrow>
                 if tok2 \<noteq> ''xftmpl'' then g
                 else
                   (case strtok r2 of
                      None \<Rightarrow> g
                    | Some (tok3, r3) \<Rightarrow>
                        if tok3 = ''name'' then
                          (case strtok r3 of
                             None \<Rightarrow> g
                           | Some (tok4, r4) \<Rightarrow>
                               if option_inc_var_name g = None
                               then g\<lparr>option_inc_var_name := Some tok4\<rparr> else g)
                        else if tok3 = ''size'' then
                          (case strtok r3 of
                             None \<Rightarrow> g
                           | Some (tok4, r4) \<Rightarrow>
                               if option_inc_size_name g = None
                               then g\<lparr>option_inc_size_name := Some tok4\<rparr> else g)
                        else g)))"

definition parse_token :: "parser \<Rightarrow> globals \<Rightarrow> error + bool \<times> parser \<times> globals" where
  "parse_token p g =
     (case read_byte p of (ok, c, p1) \<Rightarrow>
        if \<not> ok then Inr (False, p1, g)
        else if c = CHR 0x0A \<or> c = CHR 0x0D \<or> c = CHR '' '' \<or> c = CHR 0x09
          then Inr (True, p1, g)
        else if c = CHR ''{'' then Inr (True, p1, write_word g TOKEN_OBRACE)
        else if c = CHR ''}'' then Inr (True, p1, write_word g TOKEN_CBRACE)
        else if c = CHR ''['' then Inr (True, p1, write_word g TOKEN_OBRACKET)
        else if c = CHR '']'' then Inr (True, p1, write_word g TOKEN_CBRACKET)
        else if c = CHR ''('' then Inr (True, p1, write_word g TOKEN_OPAREN)
        else if c = CHR '')'' then Inr (True, p1, write_word g TOKEN_CPAREN)
        else if c = CHR '','' then Inr (True, p1, write_word g TOKEN_COMMA)
        else if c = CHR '';'' then Inr (True, p1, write_word g TOKEN_SEMICOLON)
        else if c = CHR ''.'' then Inr (True, p1, write_word g TOKEN_DOT)
        else if c = CHR ''/'' then
          (case read_byte p1 of (ok2, c2, p2) \<Rightarrow>
             if \<not> ok2 \<or> c2 \<noteq> CHR ''/'' then Inl Invalid_comment_token
             else (case comment_loop p2 of (c3, p3) \<Rightarrow> Inr (c3 = CHR 0x0A, p3, g)))
        else if c = CHR ''#'' then
          (case directive_loop p1 [] of (c2, p2, buffer) \<Rightarrow>
             if c2 \<noteq> CHR 0x0A then Inl Line_too_long
             else Inr (True, p2, pragma_directive g (c_string buffer)))
        else if c = CHR ''<'' then parse_guid p1 g
        else if c = CHR 0x22 then
          (case string_loop p1 [] of (c2, p2, buffer) \<Rightarrow>
             if c2 \<noteq> CHR 0x22 then Inl Unterminated_string
             else Inr (True, p2,
                       write_bytes
                         (write_dword (write_word g TOKEN_STRING) (of_nat (length buffer)))
                         (string_bytes buffer)))
        else if isdigit c \<or> c = CHR ''-'' then parse_number (unread_byte p1 c) g
        else if isalpha c \<or> c = CHR ''_'' then Inr (parse_name (unread_byte p1 c) g)
        else Inl (Invalid_character c))"

subsection \<open>The token loop of \<^verbatim>\<open>main\<close> ends: every token read consumes input\<close>

lemma read_byte_Nil: "infile p = [] \<Longrightarrow> read_byte p = (False, EOF_char, p)"
  by (simp add: read_byte_def)

lemma read_byte_Cons:
  "infile p = c # cs \<Longrightarrow>
   read_byte p = (True, c, p\<lparr>infile := cs, line_no := (if c = CHR 0x0A then line_no p + 1 else line_no p)\<rparr>)"
  by (simp add: read_byte_def)

lemma read_byte_length:
  "read_byte p = (ok, c, p1) \<Longrightarrow>
     (ok \<longrightarrow> Suc (length (infile p1)) = length (infile p)) \<and>
     (\<not> ok \<longrightarrow> p1 = p \<and> c = EOF_char \<and> infile p = [])"
  by (auto simp: read_byte_def split: list.splits)

lemma unread_byte_length:
  "length (infile (unread_byte p c)) \<le> Suc (length (infile p))"
  by (simp add: unread_byte_def Let_def)

lemma unread_byte_EOF: "infile (unread_byte p EOF_char) = infile p"
  by (simp add: unread_byte_def Let_def)

lemma name_loop_length:
  "name_loop p name = (c, p1, n1) \<Longrightarrow> length (infile (unread_byte p1 c)) \<le> length (infile p)"
proof (induction p name rule: name_loop.induct)
  case (1 p name)
  obtain ok c0 p0 where rb: "read_byte p = (ok, c0, p0)" by (cases "read_byte p") auto
  define cond where
    "cond \<longleftrightarrow> ok \<and> length name < BUFFER_SIZE \<and> (isalnum c0 \<or> c0 = CHR ''_'' \<or> c0 = CHR ''-'')"
  have step: "name_loop p name =
      (if cond then name_loop p0 (if length name + 1 < BUFFER_SIZE then name @ [c0] else name)
       else (c0, p0, name))"
    unfolding cond_def by (subst name_loop.simps) (simp add: rb)
  show ?case
  proof (cases cond)
    case True
    with step "1.prems"
    have "name_loop p0 (if length name + 1 < BUFFER_SIZE then name @ [c0] else name) = (c, p1, n1)"
      by simp
    from "1.IH"[OF rb[symmetric] refl True[unfolded cond_def] this]
    have "length (infile (unread_byte p1 c)) \<le> length (infile p0)" .
    moreover from True have ok by (simp add: cond_def)
    ultimately show ?thesis using read_byte_length[OF rb] by simp
  next
    case False
    with step "1.prems" have eq: "c = c0" "p1 = p0" by simp_all
    show ?thesis
    proof (cases ok)
      case True
      with read_byte_length[OF rb] unread_byte_length[of p0 c0] eq show ?thesis by simp
    next
      case False
      with read_byte_length[OF rb] eq show ?thesis by (simp add: unread_byte_EOF)
    qed
  qed
qed

lemma number_loop_length:
  "number_loop p buffer dot = (c, p1, b1, d1) \<Longrightarrow>
   length (infile (unread_byte p1 c)) \<le> length (infile p)"
proof (induction p buffer dot rule: number_loop.induct)
  case (1 p buffer dot)
  obtain ok c0 p0 where rb: "read_byte p = (ok, c0, p0)" by (cases "read_byte p") auto
  define cond where
    "cond \<longleftrightarrow> ok \<and> ((length buffer = 0 \<and> c0 = CHR ''-'') \<or> (\<not> dot \<and> c0 = CHR ''.'') \<or> isdigit c0)"
  have step: "number_loop p buffer dot =
      (if cond then number_loop p0 (if length buffer + 1 < BUFFER_SIZE then buffer @ [c0] else buffer)
                      (dot \<or> c0 = CHR ''.'')
       else (c0, p0, buffer, dot))"
    unfolding cond_def by (subst number_loop.simps) (simp add: rb)
  show ?case
  proof (cases cond)
    case True
    with step "1.prems"
    have "number_loop p0 (if length buffer + 1 < BUFFER_SIZE then buffer @ [c0] else buffer)
            (dot \<or> c0 = CHR ''.'') = (c, p1, b1, d1)"
      by simp
    from "1.IH"[OF rb[symmetric] refl True[unfolded cond_def] this]
    have "length (infile (unread_byte p1 c)) \<le> length (infile p0)" .
    moreover from True have ok by (simp add: cond_def)
    ultimately show ?thesis using read_byte_length[OF rb] by simp
  next
    case False
    with step "1.prems" have eq: "c = c0" "p1 = p0" by simp_all
    show ?thesis
    proof (cases ok)
      case True
      with read_byte_length[OF rb] unread_byte_length[of p0 c0] eq show ?thesis by simp
    next
      case False
      with read_byte_length[OF rb] eq show ?thesis by (simp add: unread_byte_EOF)
    qed
  qed
qed

lemma comment_loop_length:
  "comment_loop p = (c, p1) \<Longrightarrow> length (infile p1) \<le> length (infile p)"
proof (induction p rule: comment_loop.induct)
  case (1 p)
  obtain ok c0 p0 where rb: "read_byte p = (ok, c0, p0)" by (cases "read_byte p") auto
  define cond where "cond \<longleftrightarrow> ok \<and> c0 \<noteq> CHR 0x0A"
  have step: "comment_loop p = (if cond then comment_loop p0 else (c0, p0))"
    unfolding cond_def by (subst comment_loop.simps) (simp add: rb)
  show ?case
  proof (cases cond)
    case True
    with step "1.prems" have "comment_loop p0 = (c, p1)" by simp
    from "1.IH"[OF rb[symmetric] refl True[unfolded cond_def] this]
    have "length (infile p1) \<le> length (infile p0)" .
    moreover from True have ok by (simp add: cond_def)
    ultimately show ?thesis using read_byte_length[OF rb] by simp
  next
    case False
    with step "1.prems" have "p1 = p0" by simp
    with read_byte_length[OF rb] show ?thesis by (cases ok) auto
  qed
qed

lemma directive_loop_length:
  "directive_loop p buffer = (c, p1, b1) \<Longrightarrow> length (infile p1) \<le> length (infile p)"
proof (induction p buffer rule: directive_loop.induct)
  case (1 p buffer)
  obtain ok c0 p0 where rb: "read_byte p = (ok, c0, p0)" by (cases "read_byte p") auto
  define cond where "cond \<longleftrightarrow> ok \<and> c0 \<noteq> CHR 0x0A"
  have step: "directive_loop p buffer =
      (if cond
       then directive_loop p0 (if length buffer + 1 < BUFFER_SIZE then buffer @ [c0] else buffer)
       else (c0, p0, buffer))"
    unfolding cond_def by (subst directive_loop.simps) (simp add: rb)
  show ?case
  proof (cases cond)
    case True
    with step "1.prems"
    have "directive_loop p0 (if length buffer + 1 < BUFFER_SIZE then buffer @ [c0] else buffer)
            = (c, p1, b1)" by simp
    from "1.IH"[OF rb[symmetric] refl True[unfolded cond_def] this]
    have "length (infile p1) \<le> length (infile p0)" .
    moreover from True have ok by (simp add: cond_def)
    ultimately show ?thesis using read_byte_length[OF rb] by simp
  next
    case False
    with step "1.prems" have "p1 = p0" by simp
    with read_byte_length[OF rb] show ?thesis by (cases ok) auto
  qed
qed

lemma string_loop_length:
  "string_loop p buffer = (c, p1, b1) \<Longrightarrow> length (infile p1) \<le> length (infile p)"
proof (induction p buffer rule: string_loop.induct)
  case (1 p buffer)
  obtain ok c0 p0 where rb: "read_byte p = (ok, c0, p0)" by (cases "read_byte p") auto
  define cond where "cond \<longleftrightarrow> ok \<and> c0 \<noteq> CHR 0x22"
  have step: "string_loop p buffer =
      (if cond
       then string_loop p0 (if length buffer + 1 < BUFFER_SIZE then buffer @ [c0] else buffer)
       else (c0, p0, buffer))"
    unfolding cond_def by (subst string_loop.simps) (simp add: rb)
  show ?case
  proof (cases cond)
    case True
    with step "1.prems"
    have "string_loop p0 (if length buffer + 1 < BUFFER_SIZE then buffer @ [c0] else buffer)
            = (c, p1, b1)" by simp
    from "1.IH"[OF rb[symmetric] refl True[unfolded cond_def] this]
    have "length (infile p1) \<le> length (infile p0)" .
    moreover from True have ok by (simp add: cond_def)
    ultimately show ?thesis using read_byte_length[OF rb] by simp
  next
    case False
    with step "1.prems" have "p1 = p0" by simp
    with read_byte_length[OF rb] show ?thesis by (cases ok) auto
  qed
qed

lemma unread_read_byte:
  "read_byte p = (True, c, p1) \<Longrightarrow> c \<noteq> EOF_char \<Longrightarrow> unread_byte p1 c = p"
  by (cases "infile p") (auto simp: read_byte_def unread_byte_def Let_def)

lemma parse_name_length:
  assumes "read_byte p = (True, c, p1)" "isalpha c \<or> c = CHR ''_''"
    and "parse_name p g = (ok, p2, g2)"
  shows "length (infile p2) < length (infile p)"
proof -
  obtain c' p' n' where nl: "name_loop p1 [c] = (c', p', n')" by (cases "name_loop p1 [c]") auto
  from assms(2) have "isalnum c \<or> c = CHR ''_'' \<or> c = CHR ''-''" by (auto simp: isalnum_def)
  with assms(1) nl have nl0: "name_loop p [] = (c', p', n')"
    by (subst name_loop.simps) (simp add: BUFFER_SIZE_def)
  obtain found g1 where pk: "parse_keyword g n' = (found, g1)" by (cases "parse_keyword g n'") auto
  from assms(3) nl0 pk have "p2 = unread_byte p' c'"
    by (cases found) (simp_all add: parse_name_def)
  with name_loop_length[OF nl] read_byte_length[OF assms(1)] show ?thesis by simp
qed

lemma parse_number_length:
  assumes "read_byte p = (True, c, p1)" "isdigit c \<or> c = CHR ''-''"
    and "parse_number p g = Inr (ok, p2, g2)"
  shows "length (infile p2) < length (infile p)"
proof -
  obtain c' p' b' d' where nl: "number_loop p1 [c] (c = CHR ''.'') = (c', p', b', d')"
    by (cases "number_loop p1 [c] (c = CHR ''.'')") auto
  from assms(2) have "(length ([]::string) = 0 \<and> c = CHR ''-'') \<or> (\<not> False \<and> c = CHR ''.'') \<or> isdigit c"
    by auto
  with assms(1) nl have nl0: "number_loop p [] False = (c', p', b', d')"
    by (subst number_loop.simps) (simp add: BUFFER_SIZE_def)
  from assms(3) nl0 have "p2 = unread_byte p' c'"
    by (cases d'; cases "scan_f (c_string b')"; cases "scan_d (c_string b')")
       (simp_all add: parse_number_def)
  with number_loop_length[OF nl] read_byte_length[OF assms(1)] show ?thesis by simp
qed

lemma parse_guid_length:
  assumes "parse_guid p g = Inr (ok, p2, g2)"
  shows "length (infile p2) \<le> length (infile p)"
proof -
  obtain ok1 bytes p1 where rb: "read_bytes p 37 = (ok1, bytes, p1)"
    by (cases "read_bytes p 37") auto
  then have "length (infile p1) \<le> length (infile p)"
    by (auto simp: read_bytes_def split: if_splits)
  moreover from assms rb have "p2 = p1"
    by (cases ok1; cases "sscanf_hex guidfmt (c_string (CHR ''<'' # bytes))")
       (simp_all add: parse_guid_def split: if_splits)
  ultimately show ?thesis by simp
qed

lemma comment_branch_length:
  assumes "(case read_byte pa of
              (ok2, c2, p2) \<Rightarrow>
                if \<not> ok2 \<or> c2 \<noteq> CHR ''/'' then Inl Invalid_comment_token
                else case comment_loop p2 of (c3, p3) \<Rightarrow> Inr (c3 = CHR 0x0A, p3, ga))
           = Inr (b, q, gb)"
  shows "length (infile q) \<le> length (infile pa)"
proof -
  obtain ok2 c2 p2 where rb2: "read_byte pa = (ok2, c2, p2)" by (cases "read_byte pa") auto
  obtain c3 p3 where cl: "comment_loop p2 = (c3, p3)" by (cases "comment_loop p2") auto
  from assms rb2 cl have "ok2 \<and> q = p3" by (simp split: if_splits)
  with read_byte_length[OF rb2] comment_loop_length[OF cl] show ?thesis by simp
qed

lemma directive_branch_length:
  assumes "(case directive_loop pa [] of
              (c2, p2, buffer) \<Rightarrow>
                if c2 \<noteq> CHR 0x0A then Inl Line_too_long
                else Inr (True, p2, pragma_directive ga (c_string buffer)))
           = Inr (b, q, gb)"
  shows "length (infile q) \<le> length (infile pa)"
proof -
  obtain c2 p2 buffer where dl: "directive_loop pa [] = (c2, p2, buffer)"
    by (cases "directive_loop pa []") auto
  from assms dl have "q = p2" by (simp split: if_splits)
  with directive_loop_length[OF dl] show ?thesis by simp
qed

lemma string_branch_length:
  assumes "(case string_loop pa [] of
              (c2, p2, buffer) \<Rightarrow>
                if c2 \<noteq> CHR 0x22 then Inl Unterminated_string
                else Inr (True, p2,
                          write_bytes
                            (write_dword (write_word ga TOKEN_STRING) (of_nat (length buffer)))
                            (string_bytes buffer)))
           = Inr (b, q, gb)"
  shows "length (infile q) \<le> length (infile pa)"
proof -
  obtain c2 p2 buffer where sl: "string_loop pa [] = (c2, p2, buffer)"
    by (cases "string_loop pa []") auto
  from assms sl have "q = p2" by (simp split: if_splits)
  with string_loop_length[OF sl] show ?thesis by simp
qed

lemma parse_token_consumes:
  assumes "parse_token p g = Inr (True, p2, g2)"
  shows "length (infile p2) < length (infile p)"
proof -
  obtain ok c p1 where rb: "read_byte p = (ok, c, p1)" by (cases "read_byte p") auto
  have ok: ok
  proof (rule ccontr)
    assume "\<not> ok"
    with assms rb show False by (simp add: parse_token_def)
  qed
  with read_byte_length[OF rb] have len: "Suc (length (infile p1)) = length (infile p)" by simp
  have ne_num: "isdigit c \<or> c = CHR ''-'' \<Longrightarrow> c \<noteq> EOF_char"
    by (auto simp: EOF_char_def isdigit_def)
  have ne_name: "isalpha c \<or> c = CHR ''_'' \<Longrightarrow> c \<noteq> EOF_char"
    by (auto simp: EOF_char_def isalpha_def isupper_def islower_def)
  from rb ok have rb': "read_byte p = (True, c, p1)" by simp
  from assms rb' show ?thesis
    apply (simp add: parse_token_def split: if_splits)
    subgoal using len by simp
    subgoal using len by simp
    subgoal using len by simp
    subgoal using len by simp
    subgoal using len by simp
    subgoal using len by simp
    subgoal using len by simp
    subgoal using len by simp
    subgoal using len by simp
    subgoal using len by simp
    subgoal using len comment_branch_length[where pa=p1 and ga=g and b=True and q=p2 and gb=g2] by simp
    subgoal using len directive_branch_length[where pa=p1 and ga=g and b=True and q=p2 and gb=g2] by simp
    subgoal using len parse_guid_length[where p=p1 and g=g and ok=True] by simp
    subgoal using len string_branch_length[where pa=p1 and ga=g and b=True and q=p2 and gb=g2] by simp
    subgoal
      using ne_num unread_read_byte[OF rb'] parse_number_length[OF rb', where g=g and ok=True]
      by simp
    subgoal
      using ne_name unread_read_byte[OF rb'] parse_name_length[OF rb', where g=g and ok=True]
      by simp
    done
qed

function parse_tokens :: "parser \<Rightarrow> globals \<Rightarrow> error + parser \<times> globals" where
  "parse_tokens p g =
     (case parse_token p g of
        Inl e \<Rightarrow> Inl e
      | Inr (ok, p1, g1) \<Rightarrow> if ok then parse_tokens p1 g1 else Inr (p1, g1))"
  by pat_completeness auto
termination
  by (relation "measure (\<lambda>(p, g). length (infile p))")
     (auto dest: parse_token_consumes)

declare parse_tokens.simps [simp del]

subsection \<open>\<^verbatim>\<open>main\<close>\<close>

text \<open>
  Lines 468--493: the 16 bytes of the file header and its four fields
  (\<^verbatim>\<open>strncmp\<close> over four bytes against a text without NUL is equality of the four bytes).
\<close>

definition check_header :: "parser \<Rightarrow> error + parser" where
  "check_header p =
     (case read_bytes p 16 of (ok, header, p1) \<Rightarrow>
        if \<not> ok then Inl Header_read_failed
        else if take 4 header \<noteq> ''xof '' then Inl (Invalid_magic (take 4 header))
        else if take 4 (drop 4 header) \<noteq> ''0302'' \<and> take 4 (drop 4 header) \<noteq> ''0303''
          then Inl (Unsupported_version (take 4 (drop 4 header)))
        else if take 4 (drop 8 header) \<noteq> ''txt '' then Inl Not_text_encoded
        else if take 4 (drop 12 header) \<noteq> ''0032'' \<and> take 4 (drop 12 header) \<noteq> ''0064''
          then Inl (Unsupported_float_format (take 4 (drop 12 header)))
        else Inr p1)"

text \<open>
  Lines 468--516: the header is checked, the output header is written, the line counter is
  set to 1 and tokens are parsed until \<^verbatim>\<open>parse_token\<close> returns \<^verbatim>\<open>FALSE\<close>. (Opening the
  output file, between the two, is left out.)
\<close>

definition main_encode :: "string \<Rightarrow> globals \<Rightarrow> error + parser \<times> globals" where
  "main_encode input g =
     (case check_header \<lparr>infile = input, line_no = 1\<rparr> of
        Inl e \<Rightarrow> Inl e
      | Inr p \<Rightarrow>
          parse_tokens (p\<lparr>line_no := 1\<rparr>) (write_bytes g (string_bytes ''xof 0302bin 0064'')))"

text \<open>The static variables as the program starts.\<close>

definition initial_globals :: globals where
  "initial_globals =
     \<lparr>option_header = False, option_inc_var_name = None, option_inc_size_name = None,
      option_outfile_name = ''-'', output_data = [], output_pos = 0, output_size = 0\<rparr>"

subsection \<open>Sink writers\<close>

definition hex_digit :: "nat \<Rightarrow> char" where
  "hex_digit n = (if n < 10 then char_of (48 + n) else char_of (87 + n))"

text \<open>\<^verbatim>\<open>" 0x%02x,"\<close> of one byte.\<close>

definition c_hex_byte :: "byte \<Rightarrow> string" where
  "c_hex_byte b = '' 0x'' @ [hex_digit (unat b div 16), hex_digit (unat b mod 16)] @ '',''"

text \<open>The loop of \<^verbatim>\<open>write_c_hex_bytes\<close> from index \<open>i\<close> on, over the bytes left.\<close>

fun c_hex_loop :: "nat \<Rightarrow> byte list \<Rightarrow> string" where
  "c_hex_loop i [] = []"
| "c_hex_loop i (b # bs) =
     (if i mod 12 = 0 then [CHR 0x0A, CHR '' ''] else []) @ c_hex_byte b @ c_hex_loop (Suc i) bs"

text \<open>Both writers send the first \<open>output_pos\<close> bytes of \<open>output_data\<close>.\<close>

definition write_c_hex_bytes :: "globals \<Rightarrow> string" where
  "write_c_hex_bytes g = c_hex_loop 0 (take (unat (output_pos g)) (output_data g))"

definition write_raw_bytes :: "globals \<Rightarrow> byte list" where
  "write_raw_bytes g = take (unat (output_pos g)) (output_data g)"

subsection \<open>Options and the header file\<close>

text \<open>
  What \<^verbatim>\<open>getopt\<close> returns for \<^verbatim>\<open>"hHi:o:s:"\<close>, one element per option of the command line: the
  option letter with its argument, or \<^verbatim>\<open>'?'\<close>.
\<close>

datatype opt = Opt_h | Opt_H | Opt_i string | Opt_o string | Opt_s string | Opt_unknown

text \<open>\<^verbatim>\<open>parse_options\<close>; the result is \<open>None\<close> when \<^verbatim>\<open>-h\<close> prints the usage and exits.\<close>

fun parse_options :: "opt list \<Rightarrow> globals \<Rightarrow> globals option" where
  "parse_options [] g = Some g"
| "parse_options (Opt_h # opts) g = None"
| "parse_options (Opt_H # opts) g = parse_options opts (g\<lparr>option_header := True\<rparr>)"
| "parse_options (Opt_i optarg # opts) g =
     parse_options opts (g\<lparr>option_header := True, option_inc_var_name := Some optarg\<rparr>)"
| "parse_options (Opt_o optarg # opts) g =
     parse_options opts (g\<lparr>option_outfile_name := optarg\<rparr>)"
| "parse_options (Opt_s optarg # opts) g =
     parse_options opts (g\<lparr>option_inc_size_name := Some optarg\<rparr>)"
| "parse_options (Opt_unknown # opts) g = parse_options opts g"

text \<open>\<^verbatim>\<open>%u\<close>\<close>

fun decimal_digits :: "nat \<Rightarrow> string" where
  "decimal_digits n =
     (if n < 10 then [char_of (48 + n)]
      else decimal_digits (n div 10) @ [char_of (48 + n mod 10)])"

declare decimal_digits.simps [simp del]

text \<open>
  Lines 528--545: the text after the last \<^verbatim>\<open>/\<close> of the output file name, with every
  \<^verbatim>\<open>.\<close> replaced by \<^verbatim>\<open>_\<close> and every other byte in upper case.
\<close>

definition header_name_of :: "string \<Rightarrow> string" where
  "header_name_of outfile_name =
     map (\<lambda>c. if c = CHR ''.'' then CHR ''_'' else toupper c)
       (if CHR ''/'' \<in> set outfile_name
        then rev (takeWhile (\<lambda>c. c \<noteq> CHR ''/'') (rev outfile_name))
        else outfile_name)"

text \<open>
  Lines 521--559: the text of the header file, for the input file name as it is printed;
  without a variable name the error is fatal.
\<close>

definition header_file :: "string \<Rightarrow> globals \<Rightarrow> error + string" where
  "header_file infile_name g =
     (case option_inc_var_name g of
        None \<Rightarrow> Inl Variable_name_missing
      | Some var_name \<Rightarrow>
          Inr (''/* File generated automatically from '' @ infile_name @ ''; do not edit */''
               @ [CHR 0x0A, CHR 0x0A]
               @ ''#ifndef __WINE_'' @ header_name_of (option_outfile_name g) @ [CHR 0x0A]
               @ ''#define __WINE_'' @ header_name_of (option_outfile_name g)
               @ [CHR 0x0A, CHR 0x0A]
               @ ''unsigned char '' @ var_name @ ''[] = {''
               @ write_c_hex_bytes g
               @ [CHR 0x0A] @ ''};'' @ [CHR 0x0A, CHR 0x0A]
               @ (case option_inc_size_name g of
                    None \<Rightarrow> []
                  | Some size_name \<Rightarrow>
                      ''#define '' @ size_name @ '' '' @ decimal_digits (unat (output_pos g))
                      @ [CHR 0x0A, CHR 0x0A])
               @ ''#endif /* __WINE_'' @ header_name_of (option_outfile_name g) @ '' */''
               @ [CHR 0x0A]))"

datatype written = Header_file string | Binary_file "byte list"

text \<open>
  \<^verbatim>\<open>main\<close> for one input file: the options, the name \<^verbatim>\<open>stdin\<close> for \<^verbatim>\<open>-\<close>, the encoding,
  the name \<^verbatim>\<open>stdout\<close> for the output \<^verbatim>\<open>-\<close>, and what is written to the output file. The
  result is \<open>None\<close> after \<^verbatim>\<open>-h\<close>.
\<close>

definition main :: "opt list \<Rightarrow> string \<Rightarrow> string \<Rightarrow> (error + written) option" where
  "main opts infile_name input =
     (case parse_options opts initial_globals of
        None \<Rightarrow> None
      | Some g \<Rightarrow>
          Some (case main_encode input
                       (if option_outfile_name g = ''-''
                        then g\<lparr>option_outfile_name := ''stdout''\<rparr> else g) of
                  Inl e \<Rightarrow> Inl e
                | Inr (p, g1) \<Rightarrow>
                    if option_header g1
                    then (case header_file (if infile_name = ''-'' then ''stdin'' else infile_name) g1 of
                            Inl e \<Rightarrow> Inl e
                          | Inr text \<Rightarrow> Inr (Header_file text))
                    else Inr (Binary_file (write_raw_bytes g1))))"

section \<open>Notions used in the statements\<close>

subsection \<open>States of the static variables\<close>

text \<open>The static variables as the token loop starts, when no option was given.\<close>

definition started_globals :: globals where
  "started_globals = write_bytes initial_globals (string_bytes ''xof 0302bin 0064'')"

text \<open>
  The static variables after the file header and two names of 42 and 186 bytes were
  encoded: 256 bytes in a buffer of 256.
\<close>

definition roomy_globals :: globals where
  "roomy_globals =
     initial_globals
       \<lparr>output_data :=
          string_bytes ''xof 0302bin 0064''
          @ word_bytes TOKEN_NAME @ dword_bytes 42 @ string_bytes (replicate 42 CHR ''a'')
          @ word_bytes TOKEN_NAME @ dword_bytes 186 @ string_bytes (replicate 186 CHR ''b''),
        output_pos := 256, output_size := 256\<rparr>"

subsection \<open>The capacity of the output buffer\<close>

text \<open>
  The invariant at the \<^verbatim>\<open>memcpy\<close> of \<open>write_bytes g data\<close> with \<open>n\<close> bytes of
  data: after the growth step, the stored length plus \<open>n\<close> is at most the capacity.
\<close>

definition append_fits :: "globals \<Rightarrow> nat \<Rightarrow> bool" where
  "append_fits g n =
     (unat (output_pos (grow_output g (of_nat n))) + n
        \<le> unat (output_size (grow_output g (of_nat n))))"

text \<open>
  A token with a counted payload is three appends: the token code (2 bytes), the length of
  the payload (4 bytes) and the payload. Each of them stays inside the allocation.
\<close>

definition counted_token_fits :: "globals \<Rightarrow> WORD \<Rightarrow> byte list \<Rightarrow> bool" where
  "counted_token_fits g code payload =
     (append_fits g 2
      \<and> append_fits (write_word g code) 4
      \<and> append_fits (write_dword (write_word g code) (of_nat (length payload)))
            (length payload))"

text \<open>The bytes stored so far are inside the allocation.\<close>

definition inside_allocation :: "globals \<Rightarrow> bool" where
  "inside_allocation g = (unat (output_pos g) \<le> unat (output_size g))"

subsection \<open>Input text\<close>

text \<open>The number of newlines in a text: what reading it adds to the line counter.\<close>

definition newlines :: "string \<Rightarrow> int" where
  "newlines s = int (length (filter (\<lambda>c. c = CHR 0x0A) s))"

text \<open>Equality of two texts under case-insensitive comparison.\<close>

definition caseless_eq :: "string \<Rightarrow> string \<Rightarrow> bool" where
  "caseless_eq a b = (map tolower a = map tolower b)"

text \<open>The bytes a name is made of (the condition of the loop of \<^verbatim>\<open>parse_name\<close>).\<close>

definition is_name_char :: "char \<Rightarrow> bool" where
  "is_name_char c = (isalnum c \<or> c = CHR ''_'' \<or> c = CHR ''-'')"

text \<open>The key \<^verbatim>\<open>strcasecmp\<close> orders by.\<close>

definition lower_key :: "string \<Rightarrow> nat list" where
  "lower_key s = map (\<lambda>c. of_char (tolower c)) s"

text \<open>
  The input left after a name that ends before \<open>rest\<close>: the byte that ended the name is
  pushed back, unless it is the byte \<open>0xFF\<close>, which \<^verbatim>\<open>ungetc\<close> takes for \<^verbatim>\<open>EOF\<close>.
\<close>

definition pushed_back :: "string \<Rightarrow> string" where
  "pushed_back rest = (case rest of [] \<Rightarrow> [] | r # rs \<Rightarrow> if r = EOF_char then rs else r # rs)"

subsection \<open>Command line\<close>

text \<open>The argument of the last \<^verbatim>\<open>-i\<close> and of the last \<^verbatim>\<open>-s\<close> of a command line.\<close>

definition last_var_flag :: "opt list \<Rightarrow> string option" where
  "last_var_flag opts = foldl (\<lambda>acc x. case x of Opt_i a \<Rightarrow> Some a | _ \<Rightarrow> acc) None opts"

definition last_size_flag :: "opt list \<Rightarrow> string option" where
  "last_size_flag opts = foldl (\<lambda>acc x. case x of Opt_s a \<Rightarrow> Some a | _ \<Rightarrow> acc) None opts"

subsection \<open>Output\<close>

text \<open>
  Reading a C array initialiser back: every \<^verbatim>\<open>0x\<close> followed by two hexadecimal digits is
  one byte; all other text (white space, commas) is skipped.
\<close>

fun c_hex_decode :: "string \<Rightarrow> byte list" where
  "c_hex_decode (a # b # h # l # cs) =
     (if a = CHR ''0'' \<and> b = CHR ''x''
      then of_nat (hexadecimal [h, l]) # c_hex_decode cs
      else c_hex_decode (b # h # l # cs))"
| "c_hex_decode cs = []"

text \<open>
  The number that a bit pattern stands for in the binary32 format of IEEE 754: sign bit,
  eight bits of biased exponent, 23 bits of fraction; \<open>None\<close> for infinities and NaNs.
\<close>

definition binary32_value :: "DWORD \<Rightarrow> rat option" where
  "binary32_value w =
     (let s = (if bit w 31 then - 1 else 1);
          e = unat (drop_bit 23 w AND 0xFF);
          m = unat (w AND 0x7FFFFF)
      in if e = 255 then None
         else if e = 0 then Some (s * of_nat m / 2 ^ 149)
         else Some (s * of_nat (2 ^ 23 + m) * 2 ^ e / 2 ^ 150))"

section \<open>Properties\<close>

lemmas char_class_defs =
  isdigit_def isupper_def islower_def isalpha_def isalnum_def isspace_def isxdigit_def
  tolower_def toupper_def EOF_char_def

subsection \<open>What a token may change in the static variables\<close>

text \<open>
  A relation between the static variables that is reflexive and transitive, and that holds
  across \<open>write_bytes\<close> and across a pragma, holds across every token and across the
  whole token loop.
\<close>

lemma write_bytes_data [simp]: "output_data (write_bytes g bs) = output_data g @ bs"
  by (simp add: write_bytes_def grow_output_def Let_def)

lemma write_word_data [simp]: "output_data (write_word g w) = output_data g @ word_bytes w"
  by (simp add: write_word_def)

lemma write_dword_data [simp]: "output_data (write_dword g w) = output_data g @ dword_bytes w"
  by (simp add: write_dword_def)

lemma parse_keyword_rel:
  assumes "parse_keyword g name = (found, g1)"
    and refl: "\<And>g. R g g" and wr: "\<And>g bs. R g (write_bytes g bs)"
  shows "R g g1"
  using assms(1) refl[of g] wr[of g]
  by (cases "bsearch name reserved_words 0 (length reserved_words)")
     (auto simp: parse_keyword_def write_word_def)

lemma parse_name_rel:
  assumes "parse_name p g = (ok, p2, g2)"
    and refl: "\<And>g. R g g" and trans: "\<And>a b c. R a b \<Longrightarrow> R b c \<Longrightarrow> R a c"
    and wr: "\<And>g bs. R g (write_bytes g bs)"
  shows "R g g2"
proof -
  obtain c p1 name where nl: "name_loop p [] = (c, p1, name)" by (cases "name_loop p []") auto
  obtain found g1 where pk: "parse_keyword g name = (found, g1)"
    by (cases "parse_keyword g name") auto
  note r1 = parse_keyword_rel[of g name found g1 R, OF pk refl wr]
  show ?thesis
  proof (cases found)
    case True
    with assms(1) nl pk have "g2 = g1" by (simp add: parse_name_def)
    with r1 show ?thesis by simp
  next
    case False
    with assms(1) nl pk
    have "g2 = write_bytes (write_dword (write_word g1 TOKEN_NAME) (of_nat (length name)))
                 (string_bytes name)"
      by (simp add: parse_name_def)
    then show ?thesis
      unfolding write_word_def write_dword_def
      using r1 by (blast intro: trans wr)
  qed
qed

lemma parse_number_rel:
  assumes "parse_number p g = Inr (ok, p2, g2)"
    and trans: "\<And>a b c. R a b \<Longrightarrow> R b c \<Longrightarrow> R a c"
    and wr: "\<And>g bs. R g (write_bytes g bs)"
  shows "R g g2"
proof -
  obtain c p1 buffer dot where nl: "number_loop p [] False = (c, p1, buffer, dot)"
    by (cases "number_loop p [] False") auto
  have 1: "R g (write_bytes (write_word g w) bs)" for w bs
    unfolding write_word_def using wr trans by blast
  have 2: "R g (write_dword (write_word g w) v)" for w v
    unfolding write_word_def write_dword_def using wr trans by blast
  from assms(1) nl show ?thesis
    by (cases dot; cases "scan_f (c_string buffer)"; cases "scan_d (c_string buffer)")
       (auto simp: parse_number_def 1 2)
qed

lemma parse_guid_rel:
  assumes "parse_guid p g = Inr (ok, p2, g2)"
    and trans: "\<And>a b c. R a b \<Longrightarrow> R b c \<Longrightarrow> R a c"
    and wr: "\<And>g bs. R g (write_bytes g bs)"
  shows "R g g2"
proof -
  obtain ok1 bytes p1 where rb: "read_bytes p 37 = (ok1, bytes, p1)"
    by (cases "read_bytes p 37") auto
  have 1: "R g (write_bytes (write_word g w) bs)" for w bs
    unfolding write_word_def using wr trans by blast
  from assms(1) rb show ?thesis
    by (cases ok1; cases "sscanf_hex guidfmt (c_string (CHR ''<'' # bytes))")
       (auto simp: parse_guid_def 1 split: if_splits)
qed

lemma parse_token_rel:
  assumes tok: "parse_token p g = Inr (ok, p2, g2)"
    and refl: "\<And>g. R g g" and trans: "\<And>a b c. R a b \<Longrightarrow> R b c \<Longrightarrow> R a c"
    and wr: "\<And>g bs. R g (write_bytes g bs)"
    and pr: "\<And>g s. R g (pragma_directive g s)"
  shows "R g g2"
proof -
  obtain ok1 c p1 where rb: "read_byte p = (ok1, c, p1)" by (cases "read_byte p") auto
  have ww: "R g (write_word g w)" for w by (simp add: write_word_def wr)
  have str: "R g (write_bytes (write_dword (write_word g w) v) bs)" for w v bs
    unfolding write_word_def write_dword_def using wr trans by blast
  show ?thesis
  proof (cases ok1)
    case False
    with tok rb show ?thesis by (simp add: parse_token_def refl)
  next
    case True
    with rb have rb': "read_byte p = (True, c, p1)" by simp
    from tok rb' show ?thesis
      apply (simp add: parse_token_def split: if_splits)
      subgoal using refl by auto
      subgoal using ww by auto
      subgoal using ww by auto
      subgoal using ww by auto
      subgoal using ww by auto
      subgoal using ww by auto
      subgoal using ww by auto
      subgoal using ww by auto
      subgoal using ww by auto
      subgoal using ww by auto
      subgoal
        by (cases "read_byte p1"; cases "comment_loop (snd (snd (read_byte p1)))")
           (auto simp: refl split: if_splits)
      subgoal
        by (cases "directive_loop p1 []") (auto simp: pr split: if_splits)
      subgoal using parse_guid_rel[where R=R and p=p1 and g=g and ok=ok, OF _ trans wr] by simp
      subgoal by (cases "string_loop p1 []") (auto simp: str split: if_splits)
      subgoal
        using parse_number_rel[where R=R and p="unread_byte p1 c" and g=g and ok=ok, OF _ trans wr]
        by simp
      subgoal
        using parse_name_rel[where R=R and p="unread_byte p1 c" and g=g and ok=ok, OF _ refl trans wr]
        by simp
      done
  qed
qed

lemma parse_tokens_rel:
  assumes "parse_tokens p g = Inr (p2, g2)"
    and refl: "\<And>g. R g g" and trans: "\<And>a b c. R a b \<Longrightarrow> R b c \<Longrightarrow> R a c"
    and wr: "\<And>g bs. R g (write_bytes g bs)"
    and pr: "\<And>g s. R g (pragma_directive g s)"
  shows "R g g2"
  using assms(1)
proof (induction p g rule: parse_tokens.induct)
  case (1 p g)
  show ?case
  proof (cases "parse_token p g")
    case (Inl e)
    with "1.prems" show ?thesis by (subst (asm) parse_tokens.simps) simp
  next
    case (Inr r)
    obtain ok p1 g1 where r: "r = (ok, p1, g1)" by (cases r) auto
    note step = parse_token_rel[where R=R, OF Inr[unfolded r] refl trans wr pr]
    show ?thesis
    proof (cases ok)
      case True
      with Inr r "1.prems" have "parse_tokens p1 g1 = Inr (p2, g2)"
        by (subst (asm) parse_tokens.simps) simp
      from "1.IH"[OF Inr[unfolded r] HOL.refl HOL.refl True this] have "R g1 g2" .
      with step show ?thesis by (rule trans)
    next
      case False
      with Inr r "1.prems" have "g2 = g1" by (subst (asm) parse_tokens.simps) simp
      with step show ?thesis by simp
    qed
  qed
qed

subsection \<open>Running the token loop\<close>

lemma parse_tokens_Inl: "parse_token p g = Inl e \<Longrightarrow> parse_tokens p g = Inl e"
  by (subst parse_tokens.simps) simp

lemma parse_tokens_stop:
  "parse_token p g = Inr (False, p1, g1) \<Longrightarrow> parse_tokens p g = Inr (p1, g1)"
  by (subst parse_tokens.simps) simp

lemma parse_tokens_step:
  "parse_token p g = Inr (True, p1, g1) \<Longrightarrow> parse_tokens p g = parse_tokens p1 g1"
  by (subst parse_tokens.simps) simp

lemma parse_tokens_prefix:
  "parse_tokens p g = Inr (p2, g2) \<Longrightarrow> prefix (output_data g) (output_data g2)"
  by (rule parse_tokens_rel[where R = "\<lambda>a b. prefix (output_data a) (output_data b)"])
     (auto simp: pragma_directive_def split: option.splits)

lemma parse_token_brace:
  "parse_token \<lparr>infile = ''{'', line_no = 1\<rparr> g
   = Inr (True, \<lparr>infile = [], line_no = 1\<rparr>, write_word g TOKEN_OBRACE)"
  by (simp add: parse_token_def read_byte_def)

lemma parse_token_eof:
  "parse_token \<lparr>infile = [], line_no = n\<rparr> g = Inr (False, \<lparr>infile = [], line_no = n\<rparr>, g)"
  by (simp add: parse_token_def read_byte_def)

subsection \<open>The file header\<close>

lemma check_header_valid:
  assumes "version = ''0302'' \<or> version = ''0303''"
    and "float_width = ''0032'' \<or> float_width = ''0064''"
  shows "check_header \<lparr>infile = ''xof '' @ version @ ''txt '' @ float_width @ rest, line_no = n\<rparr>
         = Inr \<lparr>infile = rest, line_no = n\<rparr>"
  using assms by (auto simp: check_header_def read_bytes_def)

text \<open>
  Claim C7. A 16-byte input header with the magic \<^verbatim>\<open>xof \<close>, one of the versions \<^verbatim>\<open>0302\<close>
  and \<^verbatim>\<open>0303\<close>, the marker \<^verbatim>\<open>txt \<close> and one of the float widths \<^verbatim>\<open>0032\<close> and
  \<^verbatim>\<open>0064\<close> passes the header check; the token loop then starts on the rest of the input
  with the 16 bytes \<^verbatim>\<open>xof 0302bin 0064\<close> appended to the output buffer, whichever variant
  was read, and these bytes stay in front of everything a successful run adds.
\<close>

theorem header_canonical:
  assumes "version = ''0302'' \<or> version = ''0303''"
    and "float_width = ''0032'' \<or> float_width = ''0064''"
  shows "check_header \<lparr>infile = ''xof '' @ version @ ''txt '' @ float_width @ rest, line_no = n\<rparr>
           = Inr \<lparr>infile = rest, line_no = n\<rparr>
       \<and> main_encode (''xof '' @ version @ ''txt '' @ float_width @ rest) g
           = parse_tokens \<lparr>infile = rest, line_no = 1\<rparr>
               (write_bytes g (string_bytes ''xof 0302bin 0064''))
       \<and> (\<forall>p2 g2. main_encode (''xof '' @ version @ ''txt '' @ float_width @ rest) g = Inr (p2, g2)
            \<longrightarrow> prefix (output_data g @ string_bytes ''xof 0302bin 0064'') (output_data g2))"
proof -
  have enc: "main_encode (''xof '' @ version @ ''txt '' @ float_width @ rest) g
           = parse_tokens \<lparr>infile = rest, line_no = 1\<rparr>
               (write_bytes g (string_bytes ''xof 0302bin 0064''))"
    unfolding main_encode_def check_header_valid[OF assms] by simp
  moreover have "prefix (output_data g @ string_bytes ''xof 0302bin 0064'') (output_data g2)"
    if "main_encode (''xof '' @ version @ ''txt '' @ float_width @ rest) g = Inr (p2, g2)"
    for p2 g2
    using parse_tokens_prefix[of "\<lparr>infile = rest, line_no = 1\<rparr>"
        "write_bytes g (string_bytes ''xof 0302bin 0064'')" p2 g2] that enc
    by simp
  ultimately show ?thesis using check_header_valid[OF assms] by blast
qed

theorem header_canonical_witness:
  "check_header \<lparr>infile = ''xof 0303txt 0032{'', line_no = 1\<rparr> = Inr \<lparr>infile = ''{'', line_no = 1\<rparr>
   \<and> (\<exists>p2 g2. main_encode ''xof 0303txt 0032{'' initial_globals = Inr (p2, g2)
        \<and> output_data g2 = string_bytes ''xof 0302bin 0064'' @ word_bytes TOKEN_OBRACE
        \<and> prefix (output_data initial_globals @ string_bytes ''xof 0302bin 0064'') (output_data g2))"
proof -
  note h = header_canonical[of "''0303''" "''0032''" "''{''" 1 initial_globals]
  have run: "parse_tokens \<lparr>infile = ''{'', line_no = 1\<rparr>
               (write_bytes initial_globals (string_bytes ''xof 0302bin 0064''))
             = Inr (\<lparr>infile = [], line_no = 1\<rparr>,
                    write_word (write_bytes initial_globals (string_bytes ''xof 0302bin 0064''))
                      TOKEN_OBRACE)"
    by (simp add: parse_tokens_step[OF parse_token_brace] parse_tokens_stop[OF parse_token_eof])
  from h run show ?thesis by (simp add: initial_globals_def)
qed

subsection \<open>The two sink writers agree\<close>

lemma xdigit_val_hex_digit: "n < 16 \<Longrightarrow> xdigit_val (hex_digit n) = n"
proof -
  assume "n < 16"
  then consider "n < 10" | "10 \<le> n \<and> n < 16" by linarith
  then show ?thesis
  proof cases
    case 1
    then have "48 + n < 256" by simp
    with 1 show ?thesis
      by (simp add: xdigit_val_def hex_digit_def isdigit_def)
  next
    case 2
    then have "87 + n < 256" by simp
    with 2 show ?thesis
      by (simp add: xdigit_val_def hex_digit_def isdigit_def isupper_def)
  qed
qed

lemma hexadecimal_c_hex_byte:
  "of_nat (hexadecimal [hex_digit (unat b div 16), hex_digit (unat b mod 16)]) = (b :: byte)"
proof -
  have "unat b < 256" using unsigned_less[of b, where ?'a=nat] by simp
  then have "unat b div 16 < 16" by simp
  then show ?thesis
    by (simp add: hexadecimal_def xdigit_val_hex_digit)
qed

lemma c_hex_decode_loop: "c_hex_decode (c_hex_loop i bs) = bs"
proof (induction bs arbitrary: i)
  case Nil
  show ?case by simp
next
  case (Cons b bs)
  have tail: "c_hex_decode (CHR '','' # c_hex_loop j bs) = c_hex_decode (c_hex_loop j bs)" for j
    by (cases bs) (simp_all add: c_hex_byte_def)
  have "c_hex_decode (c_hex_byte b @ c_hex_loop (Suc i) bs) = b # bs"
    using Cons.IH[of "Suc i"] by (simp add: c_hex_byte_def tail hexadecimal_c_hex_byte)
  then show ?case by (simp add: c_hex_byte_def)
qed

text \<open>
  Claim C8. For every state of the output buffer, the bytes read back from the hexadecimal
  values of the C array text that \<^verbatim>\<open>write_c_hex_bytes\<close> prints are exactly the bytes that
  \<^verbatim>\<open>write_raw_bytes\<close> writes.
\<close>

theorem c_hex_bytes_decode: "c_hex_decode (write_c_hex_bytes g) = write_raw_bytes g"
  by (simp add: write_c_hex_bytes_def write_raw_bytes_def c_hex_decode_loop)

subsection \<open>String literals\<close>

lemma newlines_Nil [simp]: "newlines [] = 0"
  by (simp add: newlines_def)

lemma newlines_Cons [simp]:
  "newlines (c # s) = (if c = CHR 0x0A then 1 else 0) + newlines s"
  by (simp add: newlines_def)

lemma string_loop_closed:
  "CHR 0x22 \<notin> set s \<Longrightarrow>
   string_loop \<lparr>infile = s @ CHR 0x22 # rest, line_no = n\<rparr> buffer
   = (CHR 0x22, \<lparr>infile = rest, line_no = n + newlines s\<rparr>,
      buffer @ take (BUFFER_SIZE - 1 - length buffer) s)"
proof (induction s arbitrary: n buffer)
  case Nil
  show ?case by (subst string_loop.simps) (simp add: read_byte_def)
next
  case (Cons c s)
  from Cons.prems have c: "c \<noteq> CHR 0x22" and s: "CHR 0x22 \<notin> set s" by auto
  show ?case
    by (subst string_loop.simps)
       (auto simp: read_byte_def c Cons.IH[OF s] BUFFER_SIZE_def take_Cons')
qed

lemma string_loop_open:
  "CHR 0x22 \<notin> set s \<Longrightarrow>
   string_loop \<lparr>infile = s, line_no = n\<rparr> buffer
   = (EOF_char, \<lparr>infile = [], line_no = n + newlines s\<rparr>,
      buffer @ take (BUFFER_SIZE - 1 - length buffer) s)"
proof (induction s arbitrary: n buffer)
  case Nil
  show ?case by (subst string_loop.simps) (simp add: read_byte_def)
next
  case (Cons c s)
  from Cons.prems have c: "c \<noteq> CHR 0x22" and s: "CHR 0x22 \<notin> set s" by auto
  show ?case
    by (subst string_loop.simps)
       (auto simp: read_byte_def c Cons.IH[OF s] BUFFER_SIZE_def take_Cons')
qed

lemma directive_loop_closed:
  "CHR 0x0A \<notin> set s \<Longrightarrow>
   directive_loop \<lparr>infile = s @ CHR 0x0A # rest, line_no = n\<rparr> buffer
   = (CHR 0x0A, \<lparr>infile = rest, line_no = n + 1\<rparr>,
      buffer @ take (BUFFER_SIZE - 1 - length buffer) s)"
proof (induction s arbitrary: buffer)
  case Nil
  show ?case by (subst directive_loop.simps) (simp add: read_byte_def)
next
  case (Cons c s)
  from Cons.prems have c: "c \<noteq> CHR 0x0A" and s: "CHR 0x0A \<notin> set s" by auto
  show ?case
    by (subst directive_loop.simps)
       (auto simp: read_byte_def c Cons.IH[OF s] BUFFER_SIZE_def take_Cons')
qed

lemma directive_loop_open:
  "CHR 0x0A \<notin> set s \<Longrightarrow>
   directive_loop \<lparr>infile = s, line_no = n\<rparr> buffer
   = (EOF_char, \<lparr>infile = [], line_no = n\<rparr>,
      buffer @ take (BUFFER_SIZE - 1 - length buffer) s)"
proof (induction s arbitrary: buffer)
  case Nil
  show ?case by (subst directive_loop.simps) (simp add: read_byte_def)
next
  case (Cons c s)
  from Cons.prems have c: "c \<noteq> CHR 0x0A" and s: "CHR 0x0A \<notin> set s" by auto
  show ?case
    by (subst directive_loop.simps)
       (auto simp: read_byte_def c Cons.IH[OF s] BUFFER_SIZE_def take_Cons')
qed

lemma split_at_quote:
  "CHR 0x22 \<in> set xs \<Longrightarrow>
   xs = takeWhile (\<lambda>c. c \<noteq> CHR 0x22) xs @ CHR 0x22 # tl (dropWhile (\<lambda>c. c \<noteq> CHR 0x22) xs)"
  by (induction xs) auto

lemma unat_of_char_byte: "unat (of_char c :: byte) = of_char c"
proof -
  have "unat (of_nat (of_char c) :: byte) = of_char c"
    by (simp add: unat_of_nat)
  then show ?thesis by (simp add: of_nat_of_char)
qed

lemma of_char_byte_eq_iff: "(of_char c :: byte) = of_char d \<longleftrightarrow> c = d"
proof
  assume "(of_char c :: byte) = of_char d"
  then have "unat (of_char c :: byte) = unat (of_char d :: byte)" by simp
  then show "c = d" by (simp add: unat_of_char_byte)
qed simp

lemma no_quote_bytes:
  assumes "CHR 0x22 \<notin> set s"
  shows "0x22 \<notin> set (string_bytes (take k s))"
proof
  assume "0x22 \<in> set (string_bytes (take k s))"
  then obtain c where c: "c \<in> set (take k s)" "(of_char c :: byte) = 0x22"
    by (auto simp: string_bytes_def)
  have "(of_char (CHR 0x22) :: byte) = 0x22" by simp
  with c(2) have "c = CHR 0x22" by (simp only: of_char_byte_eq_iff[symmetric])
  with c(1) assms show False by (auto dest: in_set_takeD)
qed

text \<open>
  Claim C9. After the opening double quote, the literal ends at the first double-quote byte
  of the input, whatever byte stands before it (a backslash included): the payload is the
  bytes before that quote, verbatim, cut to the 511 that the buffer holds, and no payload
  contains the byte \<open>0x22\<close>. Without a double quote in the rest of the input the error
  is "unterminated string".
\<close>

theorem quote_ends_string:
  "parse_token \<lparr>infile = CHR 0x22 # xs, line_no = n\<rparr> g
   = (if CHR 0x22 \<in> set xs
      then Inr (True,
                \<lparr>infile = tl (dropWhile (\<lambda>c. c \<noteq> CHR 0x22) xs),
                 line_no = n + newlines (takeWhile (\<lambda>c. c \<noteq> CHR 0x22) xs)\<rparr>,
                write_bytes
                  (write_dword (write_word g TOKEN_STRING)
                     (of_nat (length (take 511 (takeWhile (\<lambda>c. c \<noteq> CHR 0x22) xs)))))
                  (string_bytes (take 511 (takeWhile (\<lambda>c. c \<noteq> CHR 0x22) xs))))
      else Inl Unterminated_string)
   \<and> 0x22 \<notin> set (string_bytes (take 511 (takeWhile (\<lambda>c. c \<noteq> CHR 0x22) xs)))"
proof -
  let ?s = "takeWhile (\<lambda>c. c \<noteq> CHR 0x22) xs"
  have no: "CHR 0x22 \<notin> set ?s" by (auto dest: set_takeWhileD)
  note payload = no_quote_bytes[OF no, of 511]
  have rb: "read_byte \<lparr>infile = CHR 0x22 # xs, line_no = n\<rparr>
            = (True, CHR 0x22, \<lparr>infile = xs, line_no = n\<rparr>)"
    by (simp add: read_byte_def)
  have tok: "parse_token \<lparr>infile = CHR 0x22 # xs, line_no = n\<rparr> g
      = (case string_loop \<lparr>infile = xs, line_no = n\<rparr> [] of (c2, p2, buffer) \<Rightarrow>
           if c2 \<noteq> CHR 0x22 then Inl Unterminated_string
           else Inr (True, p2,
                     write_bytes
                       (write_dword (write_word g TOKEN_STRING) (of_nat (length buffer)))
                       (string_bytes buffer)))"
    by (simp add: parse_token_def rb)
  show ?thesis
  proof (cases "CHR 0x22 \<in> set xs")
    case True
    have "string_loop \<lparr>infile = ?s @ CHR 0x22 # tl (dropWhile (\<lambda>c. c \<noteq> CHR 0x22) xs), line_no = n\<rparr> []
          = (CHR 0x22, \<lparr>infile = tl (dropWhile (\<lambda>c. c \<noteq> CHR 0x22) xs), line_no = n + newlines ?s\<rparr>,
             [] @ take (BUFFER_SIZE - 1 - length ([]::string)) ?s)"
      by (rule string_loop_closed[OF no])
    with split_at_quote[OF True]
    have "string_loop \<lparr>infile = xs, line_no = n\<rparr> []
          = (CHR 0x22, \<lparr>infile = tl (dropWhile (\<lambda>c. c \<noteq> CHR 0x22) xs), line_no = n + newlines ?s\<rparr>,
             take 511 ?s)"
      by (simp add: BUFFER_SIZE_def)
    with True payload show ?thesis by (simp add: tok)
  next
    case False
    with payload show ?thesis
      by (simp add: tok string_loop_open[OF False] EOF_char_def)
  qed
qed

theorem quote_ends_string_witness:
  "parse_token
     \<lparr>infile = [CHR 0x22, CHR ''a'', CHR ''b'', CHR 0x5C, CHR 0x22, CHR ''c'', CHR 0x22],
      line_no = 1\<rparr> started_globals
   = Inr (True, \<lparr>infile = [CHR ''c'', CHR 0x22], line_no = 1\<rparr>,
          write_bytes (write_dword (write_word started_globals TOKEN_STRING) 3)
            (string_bytes [CHR ''a'', CHR ''b'', CHR 0x5C]))
   \<and> 0x22 \<notin> set (string_bytes [CHR ''a'', CHR ''b'', CHR 0x5C])"
  using quote_ends_string
    [of "[CHR ''a'', CHR ''b'', CHR 0x5C, CHR 0x22, CHR ''c'', CHR 0x22]" 1 started_globals]
  by simp

subsection \<open>Names given on the command line\<close>

lemma write_bytes_names [simp]:
  "option_inc_var_name (write_bytes g bs) = option_inc_var_name g"
  "option_inc_size_name (write_bytes g bs) = option_inc_size_name g"
  "option_header (write_bytes g bs) = option_header g"
  "option_outfile_name (write_bytes g bs) = option_outfile_name g"
  by (simp_all add: write_bytes_def grow_output_def Let_def)

lemma pragma_directive_var_name:
  "option_inc_var_name g = Some v \<Longrightarrow> option_inc_var_name (pragma_directive g s) = Some v"
  by (simp add: pragma_directive_def split: option.splits)

lemma pragma_directive_size_name:
  "option_inc_size_name g = Some v \<Longrightarrow> option_inc_size_name (pragma_directive g s) = Some v"
  by (simp add: pragma_directive_def split: option.splits)

lemma parse_tokens_var_name:
  assumes "parse_tokens p g = Inr (p2, g2)" "option_inc_var_name g = Some v"
  shows "option_inc_var_name g2 = Some v"
proof -
  have "option_inc_var_name g = Some v \<longrightarrow> option_inc_var_name g2 = Some v"
    by (rule parse_tokens_rel
          [where R = "\<lambda>a b. option_inc_var_name a = Some v \<longrightarrow> option_inc_var_name b = Some v",
           OF assms(1)])
       (simp_all add: pragma_directive_var_name)
  with assms(2) show ?thesis by simp
qed

lemma parse_tokens_size_name:
  assumes "parse_tokens p g = Inr (p2, g2)" "option_inc_size_name g = Some v"
  shows "option_inc_size_name g2 = Some v"
proof -
  have "option_inc_size_name g = Some v \<longrightarrow> option_inc_size_name g2 = Some v"
    by (rule parse_tokens_rel
          [where R = "\<lambda>a b. option_inc_size_name a = Some v \<longrightarrow> option_inc_size_name b = Some v",
           OF assms(1)])
       (simp_all add: pragma_directive_size_name)
  with assms(2) show ?thesis by simp
qed

lemma main_encode_names:
  assumes "main_encode input g = Inr (p2, g2)"
  shows "(option_inc_var_name g = Some v \<longrightarrow> option_inc_var_name g2 = Some v)
       \<and> (option_inc_size_name g = Some s \<longrightarrow> option_inc_size_name g2 = Some s)"
proof (cases "check_header \<lparr>infile = input, line_no = 1\<rparr>")
  case (Inl e)
  with assms show ?thesis by (simp add: main_encode_def)
next
  case (Inr p)
  with assms
  have run: "parse_tokens (p\<lparr>line_no := 1\<rparr>) (write_bytes g (string_bytes ''xof 0302bin 0064''))
             = Inr (p2, g2)"
    by (simp add: main_encode_def)
  show ?thesis
    using parse_tokens_var_name[OF run, of v] parse_tokens_size_name[OF run, of s] by simp
qed

lemma parse_options_flags:
  "parse_options opts g = Some g1 \<Longrightarrow>
   option_inc_var_name g1
     = foldl (\<lambda>acc x. case x of Opt_i a \<Rightarrow> Some a | _ \<Rightarrow> acc) (option_inc_var_name g) opts
   \<and> option_inc_size_name g1
     = foldl (\<lambda>acc x. case x of Opt_s a \<Rightarrow> Some a | _ \<Rightarrow> acc) (option_inc_size_name g) opts"
proof (induction opts g rule: parse_options.induct)
qed auto

lemma parse_options_header:
  "parse_options opts g = Some g1 \<Longrightarrow>
   (option_inc_var_name g \<noteq> None \<longrightarrow> option_header g) \<Longrightarrow>
   (option_inc_var_name g1 \<noteq> None \<longrightarrow> option_header g1)"
proof (induction opts g rule: parse_options.induct)
qed auto

lemma main_encode_header:
  assumes "main_encode input g = Inr (p2, g2)"
  shows "option_header g2 = option_header g \<and> option_outfile_name g2 = option_outfile_name g"
proof (cases "check_header \<lparr>infile = input, line_no = 1\<rparr>")
  case (Inl e)
  with assms show ?thesis by (simp add: main_encode_def)
next
  case (Inr p)
  with assms
  have run: "parse_tokens (p\<lparr>line_no := 1\<rparr>) (write_bytes g (string_bytes ''xof 0302bin 0064''))
             = Inr (p2, g2)"
    by (simp add: main_encode_def)
  have "option_header (write_bytes g (string_bytes ''xof 0302bin 0064'')) = option_header g2
      \<and> option_outfile_name (write_bytes g (string_bytes ''xof 0302bin 0064''))
        = option_outfile_name g2"
    by (rule parse_tokens_rel
          [where R = "\<lambda>a b. option_header a = option_header b
                            \<and> option_outfile_name a = option_outfile_name b", OF run])
       (simp_all add: pragma_directive_def split: option.splits)
  then show ?thesis by simp
qed

lemma main_example:
  "main [Opt_i ''Bar'', Opt_s ''BAR_SIZE'', Opt_o ''out/t.h''] ''t.x''
     (''xof 0302txt 0064'' @ [CHR 0x0A] @ ''#pragma xftmpl name Foo'' @ [CHR 0x0A]
       @ ''#pragma xftmpl size FOO_SIZE'' @ [CHR 0x0A] @ '';'')
   = Some (Inr (Header_file
       (''/* File generated automatically from t.x; do not edit */'' @ [CHR 0x0A, CHR 0x0A]
        @ ''#ifndef __WINE_T_H'' @ [CHR 0x0A] @ ''#define __WINE_T_H'' @ [CHR 0x0A, CHR 0x0A]
        @ ''unsigned char Bar[] = {'' @ [CHR 0x0A]
        @ ''  0x78, 0x6f, 0x66, 0x20, 0x30, 0x33, 0x30, 0x32, 0x62, 0x69, 0x6e, 0x20,''
        @ [CHR 0x0A] @ ''  0x30, 0x30, 0x36, 0x34, 0x14, 0x00,'' @ [CHR 0x0A]
        @ ''};'' @ [CHR 0x0A, CHR 0x0A] @ ''#define BAR_SIZE 18'' @ [CHR 0x0A, CHR 0x0A]
        @ ''#endif /* __WINE_T_H */'' @ [CHR 0x0A])))"
  by (simp add: main_def initial_globals_def main_encode_def check_header_def read_bytes_def
      parse_tokens.simps parse_token_def read_byte_def directive_loop.simps BUFFER_SIZE_def
      pragma_directive_def c_string_def strtok_def is_delim_def
      write_word_def write_bytes_def grow_output_def string_bytes_def word_bytes_def
      token_defs header_file_def header_name_of_def char_class_defs
      write_c_hex_bytes_def c_hex_byte_def hex_digit_def decimal_digits.simps Let_def
      char_of_def bit_iff_odd drop_bit_eq_div)

lemma encode_example:
  "\<exists>p2 g2. main_encode
     (''xof 0302txt 0064'' @ [CHR 0x0A] @ ''#pragma xftmpl name Foo'' @ [CHR 0x0A]
       @ ''#pragma xftmpl size FOO_SIZE'' @ [CHR 0x0A] @ '';'')
     (initial_globals\<lparr>option_header := True, option_inc_var_name := Some ''Bar'',
        option_inc_size_name := Some ''BAR_SIZE'', option_outfile_name := ''out/t.h''\<rparr>)
   = Inr (p2, g2)"
  using main_example
  by (cases "main_encode
     (''xof 0302txt 0064'' @ [CHR 0x0A] @ ''#pragma xftmpl name Foo'' @ [CHR 0x0A]
       @ ''#pragma xftmpl size FOO_SIZE'' @ [CHR 0x0A] @ '';'')
     (initial_globals\<lparr>option_header := True, option_inc_var_name := Some ''Bar'',
        option_inc_size_name := Some ''BAR_SIZE'', option_outfile_name := ''out/t.h''\<rparr>)")
     (auto simp: main_def)

text \<open>
  Claim C10. Whenever the encoding succeeds, a variable name given by \<^verbatim>\<open>-i\<close> on the command
  line (the last one, if several) is still the value of \<open>option_inc_var_name\<close> after the whole
  input was read, whatever pragmas the input holds, and the program writes a header file
  whose array has that name; likewise the name given by the last \<^verbatim>\<open>-s\<close> is still the value
  of \<open>option_inc_size_name\<close>, and it is the name of the size macro of the header file, when
  one is written.
\<close>

theorem flags_before_pragmas:
  assumes opts: "parse_options opts initial_globals = Some g"
    and enc: "main_encode input
           (if option_outfile_name g = ''-'' then g\<lparr>option_outfile_name := ''stdout''\<rparr> else g)
         = Inr (p2, g2)"
  shows "(\<forall>v. last_var_flag opts = Some v \<longrightarrow>
              option_inc_var_name g2 = Some v
            \<and> (\<exists>pre post. main opts infile_name input
                  = Some (Inr (Header_file (pre @ ''unsigned char '' @ v @ ''[] = {'' @ post)))))
       \<and> (\<forall>s. last_size_flag opts = Some s \<longrightarrow>
              option_inc_size_name g2 = Some s
            \<and> (\<forall>text. main opts infile_name input = Some (Inr (Header_file text)) \<longrightarrow>
                 (\<exists>pre post. text = pre @ ''#define '' @ s @ '' ''
                                     @ decimal_digits (unat (output_pos g2))
                                     @ [CHR 0x0A, CHR 0x0A] @ post)))"
proof -
  define g' where "g' = (if option_outfile_name g = ''-''
                          then g\<lparr>option_outfile_name := ''stdout''\<rparr> else g)"
  define nm where "nm = (if infile_name = ''-'' then ''stdin'' else infile_name)"
  from enc have enc': "main_encode input g' = Inr (p2, g2)" by (simp add: g'_def)
  have names: "option_inc_var_name g' = option_inc_var_name g"
              "option_inc_size_name g' = option_inc_size_name g"
              "option_header g' = option_header g"
    by (simp_all add: g'_def)
  note flags = parse_options_flags[OF opts]
  have run: "main opts infile_name input
             = Some (if option_header g2
                     then (case header_file nm g2 of Inl e \<Rightarrow> Inl e
                           | Inr text \<Rightarrow> Inr (Header_file text))
                     else Inr (Binary_file (write_raw_bytes g2)))"
    using opts enc by (simp add: main_def nm_def)
  have var: "option_inc_var_name g2 = Some v
      \<and> (\<exists>pre post. main opts infile_name input
            = Some (Inr (Header_file (pre @ ''unsigned char '' @ v @ ''[] = {'' @ post))))"
    if "last_var_flag opts = Some v" for v
  proof -
    from that flags have gv: "option_inc_var_name g = Some v"
      by (simp add: last_var_flag_def initial_globals_def)
    with main_encode_names[OF enc', of v] names have v: "option_inc_var_name g2 = Some v" by simp
    from parse_options_header[OF opts] gv have "option_header g"
      by (simp add: initial_globals_def)
    with main_encode_header[OF enc'] names have h: "option_header g2" by simp
    have "main opts infile_name input = Some (Inr (Header_file
              ((''/* File generated automatically from '' @ nm @ ''; do not edit */''
               @ [CHR 0x0A, CHR 0x0A]
               @ ''#ifndef __WINE_'' @ header_name_of (option_outfile_name g2) @ [CHR 0x0A]
               @ ''#define __WINE_'' @ header_name_of (option_outfile_name g2)
               @ [CHR 0x0A, CHR 0x0A])
               @ ''unsigned char '' @ v @ ''[] = {''
               @ (write_c_hex_bytes g2
               @ [CHR 0x0A] @ ''};'' @ [CHR 0x0A, CHR 0x0A]
               @ (case option_inc_size_name g2 of
                    None \<Rightarrow> []
                  | Some size_name \<Rightarrow>
                      ''#define '' @ size_name @ '' '' @ decimal_digits (unat (output_pos g2))
                      @ [CHR 0x0A, CHR 0x0A])
               @ ''#endif /* __WINE_'' @ header_name_of (option_outfile_name g2) @ '' */''
               @ [CHR 0x0A]))))"
      unfolding run using h v by (simp add: header_file_def)
    with v show ?thesis by blast
  qed
  have size: "option_inc_size_name g2 = Some s
      \<and> (\<forall>text. main opts infile_name input = Some (Inr (Header_file text)) \<longrightarrow>
           (\<exists>pre post. text = pre @ ''#define '' @ s @ '' '' @ decimal_digits (unat (output_pos g2))
                                  @ [CHR 0x0A, CHR 0x0A] @ post))"
    if "last_size_flag opts = Some s" for s
  proof -
    from that flags have "option_inc_size_name g = Some s"
      by (simp add: last_size_flag_def initial_globals_def)
    with main_encode_names[OF enc', of _ s] names have sz: "option_inc_size_name g2 = Some s"
      by simp
    have "\<exists>pre post. hdr = pre @ ''#define '' @ s @ '' '' @ decimal_digits (unat (output_pos g2))
                                  @ [CHR 0x0A, CHR 0x0A] @ post"
      if m: "main opts infile_name input = Some (Inr (Header_file hdr))" for hdr
    proof -
      from m have hf: "header_file nm g2 = Inr hdr"
        unfolding run by (cases "header_file nm g2") (auto split: if_splits)
      then obtain var_name where "option_inc_var_name g2 = Some var_name"
        by (cases "option_inc_var_name g2") (auto simp: header_file_def)
      with hf sz have "hdr = (''/* File generated automatically from '' @ nm @ ''; do not edit */''
               @ [CHR 0x0A, CHR 0x0A]
               @ ''#ifndef __WINE_'' @ header_name_of (option_outfile_name g2) @ [CHR 0x0A]
               @ ''#define __WINE_'' @ header_name_of (option_outfile_name g2)
               @ [CHR 0x0A, CHR 0x0A]
               @ ''unsigned char '' @ var_name @ ''[] = {''
               @ write_c_hex_bytes g2
               @ [CHR 0x0A] @ ''};'' @ [CHR 0x0A, CHR 0x0A])
               @ ''#define '' @ s @ '' '' @ decimal_digits (unat (output_pos g2))
               @ [CHR 0x0A, CHR 0x0A]
               @ (''#endif /* __WINE_'' @ header_name_of (option_outfile_name g2) @ '' */''
               @ [CHR 0x0A])"
        by (auto simp: header_file_def)
      then show ?thesis by blast
    qed
    with sz show ?thesis by blast
  qed
  from var size show ?thesis by blast
qed


theorem flags_before_pragmas_witness:
  "main [Opt_i ''Bar'', Opt_s ''BAR_SIZE'', Opt_o ''out/t.h''] ''t.x''
     (''xof 0302txt 0064'' @ [CHR 0x0A] @ ''#pragma xftmpl name Foo'' @ [CHR 0x0A]
       @ ''#pragma xftmpl size FOO_SIZE'' @ [CHR 0x0A] @ '';'')
   = Some (Inr (Header_file
       (''/* File generated automatically from t.x; do not edit */'' @ [CHR 0x0A, CHR 0x0A]
        @ ''#ifndef __WINE_T_H'' @ [CHR 0x0A] @ ''#define __WINE_T_H'' @ [CHR 0x0A, CHR 0x0A]
        @ ''unsigned char Bar[] = {'' @ [CHR 0x0A]
        @ ''  0x78, 0x6f, 0x66, 0x20, 0x30, 0x33, 0x30, 0x32, 0x62, 0x69, 0x6e, 0x20,''
        @ [CHR 0x0A] @ ''  0x30, 0x30, 0x36, 0x34, 0x14, 0x00,'' @ [CHR 0x0A]
        @ ''};'' @ [CHR 0x0A, CHR 0x0A] @ ''#define BAR_SIZE 18'' @ [CHR 0x0A, CHR 0x0A]
        @ ''#endif /* __WINE_T_H */'' @ [CHR 0x0A])))
   \<and> last_var_flag [Opt_i ''Bar'', Opt_s ''BAR_SIZE'', Opt_o ''out/t.h''] = Some ''Bar''
   \<and> last_size_flag [Opt_i ''Bar'', Opt_s ''BAR_SIZE'', Opt_o ''out/t.h''] = Some ''BAR_SIZE''
   \<and> parse_options [Opt_i ''Bar'', Opt_s ''BAR_SIZE'', Opt_o ''out/t.h''] initial_globals
       = Some (initial_globals\<lparr>option_header := True, option_inc_var_name := Some ''Bar'',
                 option_inc_size_name := Some ''BAR_SIZE'', option_outfile_name := ''out/t.h''\<rparr>)
   \<and> (\<exists>p2 g2. main_encode
                 (''xof 0302txt 0064'' @ [CHR 0x0A] @ ''#pragma xftmpl name Foo'' @ [CHR 0x0A]
                   @ ''#pragma xftmpl size FOO_SIZE'' @ [CHR 0x0A] @ '';'')
                 (initial_globals\<lparr>option_header := True, option_inc_var_name := Some ''Bar'',
                    option_inc_size_name := Some ''BAR_SIZE'', option_outfile_name := ''out/t.h''\<rparr>)
               = Inr (p2, g2)
             \<and> option_inc_var_name g2 = Some ''Bar''
             \<and> option_inc_size_name g2 = Some ''BAR_SIZE'')"
proof -
  have flags: "last_var_flag [Opt_i ''Bar'', Opt_s ''BAR_SIZE'', Opt_o ''out/t.h''] = Some ''Bar''"
    "last_size_flag [Opt_i ''Bar'', Opt_s ''BAR_SIZE'', Opt_o ''out/t.h''] = Some ''BAR_SIZE''"
    by (simp_all add: last_var_flag_def last_size_flag_def)
  have opts: "parse_options [Opt_i ''Bar'', Opt_s ''BAR_SIZE'', Opt_o ''out/t.h''] initial_globals
       = Some (initial_globals\<lparr>option_header := True, option_inc_var_name := Some ''Bar'',
                 option_inc_size_name := Some ''BAR_SIZE'', option_outfile_name := ''out/t.h''\<rparr>)"
    by simp
  from encode_example obtain p2 g2 where enc: "main_encode
     (''xof 0302txt 0064'' @ [CHR 0x0A] @ ''#pragma xftmpl name Foo'' @ [CHR 0x0A]
       @ ''#pragma xftmpl size FOO_SIZE'' @ [CHR 0x0A] @ '';'')
     (initial_globals\<lparr>option_header := True, option_inc_var_name := Some ''Bar'',
        option_inc_size_name := Some ''BAR_SIZE'', option_outfile_name := ''out/t.h''\<rparr>)
   = Inr (p2, g2)"
    by blast
  from flags_before_pragmas[OF opts, of _ p2 g2 "''t.x''"] enc flags
  have "option_inc_var_name g2 = Some ''Bar''" "option_inc_size_name g2 = Some ''BAR_SIZE''"
    by simp_all
  with enc show ?thesis using main_example flags opts by blast
qed


subsection \<open>Growth of the output buffer\<close>

lemma main_encode_0302_0064:
  "main_encode (''xof 0302txt 0064'' @ rest) initial_globals
   = parse_tokens \<lparr>infile = rest, line_no = 1\<rparr> started_globals"
  by (simp add: main_encode_def check_header_def read_bytes_def started_globals_def)

lemma string_100_token:
  "parse_token \<lparr>infile = CHR 0x22 # replicate 100 CHR ''a'' @ [CHR 0x22], line_no = 1\<rparr> g
   = Inr (True, \<lparr>infile = [], line_no = 1\<rparr>,
          write_bytes (write_dword (write_word g TOKEN_STRING) 100)
            (string_bytes (replicate 100 CHR ''a'')))"
proof -
  have "string_loop \<lparr>infile = replicate 100 CHR ''a'' @ CHR 0x22 # [], line_no = 1\<rparr> []
        = (CHR 0x22, \<lparr>infile = [], line_no = 1 + newlines (replicate 100 CHR ''a'')\<rparr>,
           [] @ take (BUFFER_SIZE - 1 - length ([]::string)) (replicate 100 CHR ''a''))"
    by (rule string_loop_closed) simp
  moreover have "newlines (replicate 100 CHR ''a'') = 0" by (simp add: newlines_def)
  ultimately
  have "string_loop \<lparr>infile = replicate 100 CHR ''a'' @ [CHR 0x22], line_no = 1\<rparr> []
        = (CHR 0x22, \<lparr>infile = [], line_no = 1\<rparr>, replicate 100 CHR ''a'')"
    by (simp add: BUFFER_SIZE_def)
  then show ?thesis
    by (simp add: parse_token_def read_byte_def)
qed

lemma started_counters:
  "output_pos started_globals = 16" "output_size started_globals = 16"
  by (simp_all add: started_globals_def initial_globals_def write_bytes_def grow_output_def
      string_bytes_def Let_def)

text \<open>
  Claim C4, on the input made of the file header and a string literal of 100 bytes. The run
  ends without an error. When the 100 bytes of the literal are appended, the buffer holds
  22 bytes and the growth step sets its capacity to \<open>max (2 * 32) 100 = 100\<close>: the
  stored length plus the 100 bytes is 122, and the invariant does not hold at the copy.
\<close>

theorem append_past_allocation:
  "main_encode (''xof 0302txt 0064'' @ CHR 0x22 # replicate 100 CHR ''a'' @ [CHR 0x22])
     initial_globals
   = Inr (\<lparr>infile = [], line_no = 1\<rparr>,
          write_bytes (write_dword (write_word started_globals TOKEN_STRING) 100)
            (string_bytes (replicate 100 CHR ''a'')))
   \<and> output_pos (write_dword (write_word started_globals TOKEN_STRING) 100) = 22
   \<and> output_size (grow_output (write_dword (write_word started_globals TOKEN_STRING) 100) 100)
       = 100
   \<and> \<not> append_fits (write_dword (write_word started_globals TOKEN_STRING) 100) 100"
proof -
  have run: "parse_tokens \<lparr>infile = CHR 0x22 # replicate 100 CHR ''a'' @ [CHR 0x22], line_no = 1\<rparr>
           started_globals
        = Inr (\<lparr>infile = [], line_no = 1\<rparr>,
          write_bytes (write_dword (write_word started_globals TOKEN_STRING) 100)
            (string_bytes (replicate 100 CHR ''a'')))"
    by (simp add: parse_tokens_step[OF string_100_token] parse_tokens_stop[OF parse_token_eof])
  have pos: "output_pos (write_dword (write_word started_globals TOKEN_STRING) 100) = 22"
    and sz: "output_size (write_dword (write_word started_globals TOKEN_STRING) 100) = 32"
    by (simp_all add: write_dword_def write_word_def write_bytes_def grow_output_def
        started_counters word_bytes_def dword_bytes_def Let_def)
  have grown: "output_size (grow_output (write_dword (write_word started_globals TOKEN_STRING) 100) 100) = 100"
    and gpos: "output_pos (grow_output (write_dword (write_word started_globals TOKEN_STRING) 100) 100) = 22"
    by (simp_all add: grow_output_def pos sz)
  have "\<not> append_fits (write_dword (write_word started_globals TOKEN_STRING) 100) 100"
    by (simp add: append_fits_def grown gpos)
  with run pos grown show ?thesis
    using main_encode_0302_0064[of "CHR 0x22 # replicate 100 CHR ''a'' @ [CHR 0x22]"] by simp
qed

subsection \<open>Number literals\<close>

lemma number_minus42:
  "parse_number \<lparr>infile = ''-42'', line_no = n\<rparr> g
   = Inr (True, \<lparr>infile = [], line_no = n\<rparr>,
          write_dword (write_word g TOKEN_INTEGER) (word_of_int (- 42)))"
  by (simp add: parse_number_def number_loop.simps read_byte_def unread_byte_def
      char_class_defs BUFFER_SIZE_def c_string_def scan_d_def decimal_def digit_val_def)

lemma number_1:
  "parse_number \<lparr>infile = ''1'', line_no = n\<rparr> g
   = Inr (True, \<lparr>infile = [], line_no = n\<rparr>, write_dword (write_word g TOKEN_INTEGER) 1)"
  by (simp add: parse_number_def number_loop.simps read_byte_def unread_byte_def
      char_class_defs BUFFER_SIZE_def c_string_def scan_d_def decimal_def digit_val_def)

lemma bit_length_35: "bit_length 35 = 6"
  by (simp add: bit_length.simps)

lemma bit_length_10: "bit_length 10 = 4"
  by (simp add: bit_length.simps)

lemma binary32_35_10: "binary32_of_ratio False 35 10 = 0x40600000"
proof -
  have e1: "int (bit_length 35) - int (bit_length 10) = 2"
    by (simp add: bit_length_35 bit_length_10)
  have ge: "\<not> ge_pow2 35 10 2" by (simp add: ge_pow2_def)
  have m: "round_half_even 146800640 10 = 14680064" by (simp add: round_half_even_def)
  have "binary32_of_ratio False 35 10
        = of_nat (min 0x7F800000 (nat (1 + 126) * 2 ^ 23 + round_half_even (35 * 2 ^ 22) 10))"
    unfolding binary32_of_ratio_def e1 Let_def
    by (simp add: ge)
  also have "\<dots> = 0x40600000" by (simp add: m)
  finally show ?thesis .
qed

lemma scan_f_3_5: "scan_f ''3.5'' = Scan_ok 0x40600000"
  by (simp add: scan_f_def char_class_defs decimal_def digit_val_def binary32_35_10)

lemma number_3_5:
  "rest = [] \<or> rest = ''.1'' \<Longrightarrow>
   parse_number \<lparr>infile = ''3.5'' @ rest, line_no = n\<rparr> g
   = Inr (True, \<lparr>infile = rest, line_no = n\<rparr>,
          write_bytes (write_word g TOKEN_FLOAT) (dword_bytes 0x40600000))"
  by (auto simp add: parse_number_def number_loop.simps read_byte_def unread_byte_def
      char_class_defs BUFFER_SIZE_def c_string_def scan_f_3_5)

lemma token_minus42:
  "parse_token \<lparr>infile = ''-42'', line_no = n\<rparr> g
   = Inr (True, \<lparr>infile = [], line_no = n\<rparr>,
          write_dword (write_word g TOKEN_INTEGER) (word_of_int (- 42)))"
  using number_minus42[of n g]
  by (simp add: parse_token_def read_byte_def unread_byte_def char_class_defs)

lemma token_1:
  "parse_token \<lparr>infile = ''1'', line_no = n\<rparr> g
   = Inr (True, \<lparr>infile = [], line_no = n\<rparr>, write_dword (write_word g TOKEN_INTEGER) 1)"
  using number_1[of n g]
  by (simp add: parse_token_def read_byte_def unread_byte_def char_class_defs)

lemma token_3_5:
  "rest = [] \<or> rest = ''.1'' \<Longrightarrow>
   parse_token \<lparr>infile = ''3.5'' @ rest, line_no = n\<rparr> g
   = Inr (True, \<lparr>infile = rest, line_no = n\<rparr>,
          write_bytes (write_word g TOKEN_FLOAT) (dword_bytes 0x40600000))"
  using number_3_5[of rest n g]
  by (simp add: parse_token_def read_byte_def unread_byte_def char_class_defs)

lemma token_dot:
  "parse_token \<lparr>infile = CHR ''.'' # rest, line_no = n\<rparr> g
   = Inr (True, \<lparr>infile = rest, line_no = n\<rparr>, write_word g TOKEN_DOT)"
  by (simp add: parse_token_def read_byte_def)

lemma binary32_value_3_5: "binary32_value 0x40600000 = Some (7 / 2)"
proof -
  have 1: "\<not> bit (0x40600000 :: DWORD) 31" by (simp add: bit_iff_odd)
  have 2: "unat (drop_bit 23 (0x40600000 :: DWORD) AND 0xFF) = 128"
    by (simp add: drop_bit_eq_div)
  have 3: "unat ((0x40600000 :: DWORD) AND 0x7FFFFF) = 0x600000" by simp
  show ?thesis unfolding binary32_value_def 1 2 3 Let_def by simp
qed

text \<open>
  Claim C6. The input \<^verbatim>\<open>-42\<close> gives the token code of an integer followed by the four bytes
  of the 32-bit word whose signed value is \<open>-42\<close>. The input \<^verbatim>\<open>3.5\<close> gives the token code of
  a float followed by the four bytes of \<open>0x40600000\<close>, the binary32 pattern of \<open>7/2\<close>. In
  \<^verbatim>\<open>3.5.1\<close> the number ends before the second point: the tokens are the float \<open>3.5\<close>, a dot
  and the integer \<open>1\<close>.
\<close>

theorem number_literals:
  "parse_tokens \<lparr>infile = ''-42'', line_no = 1\<rparr> g
     = Inr (\<lparr>infile = [], line_no = 1\<rparr>,
            write_dword (write_word g TOKEN_INTEGER) (word_of_int (- 42)))
   \<and> sint (word_of_int (- 42) :: DWORD) = - 42
   \<and> output_data (write_dword (write_word g TOKEN_INTEGER) (word_of_int (- 42)))
     = output_data g @ [3, 0] @ [0xD6, 0xFF, 0xFF, 0xFF]
   \<and> parse_tokens \<lparr>infile = ''3.5'', line_no = 1\<rparr> g
     = Inr (\<lparr>infile = [], line_no = 1\<rparr>,
            write_bytes (write_word g TOKEN_FLOAT) (dword_bytes 0x40600000))
   \<and> binary32_value 0x40600000 = Some (7 / 2)
   \<and> output_data (write_bytes (write_word g TOKEN_FLOAT) (dword_bytes 0x40600000))
     = output_data g @ [42, 0] @ [0x00, 0x00, 0x60, 0x40]
   \<and> parse_tokens \<lparr>infile = ''3.5.1'', line_no = 1\<rparr> g
     = Inr (\<lparr>infile = [], line_no = 1\<rparr>,
            write_dword
              (write_word
                 (write_word
                    (write_bytes (write_word g TOKEN_FLOAT) (dword_bytes 0x40600000))
                    TOKEN_DOT)
                 TOKEN_INTEGER) 1)"
proof -
  have a: "parse_tokens \<lparr>infile = ''-42'', line_no = 1\<rparr> g
     = Inr (\<lparr>infile = [], line_no = 1\<rparr>,
            write_dword (write_word g TOKEN_INTEGER) (word_of_int (- 42)))"
    by (simp add: parse_tokens_step[OF token_minus42] parse_tokens_stop[OF parse_token_eof])
  have b: "parse_tokens \<lparr>infile = ''3.5'', line_no = 1\<rparr> g
     = Inr (\<lparr>infile = [], line_no = 1\<rparr>,
            write_bytes (write_word g TOKEN_FLOAT) (dword_bytes 0x40600000))"
    using parse_tokens_step[OF token_3_5[of "[]" 1 g]]
    by (simp add: parse_tokens_stop[OF parse_token_eof])
  have c: "parse_tokens \<lparr>infile = ''3.5.1'', line_no = 1\<rparr> g
     = Inr (\<lparr>infile = [], line_no = 1\<rparr>,
            write_dword
              (write_word
                 (write_word
                    (write_bytes (write_word g TOKEN_FLOAT) (dword_bytes 0x40600000))
                    TOKEN_DOT)
                 TOKEN_INTEGER) 1)"
    using parse_tokens_step[OF token_3_5[of "''.1''" 1 g]]
    by (simp add: parse_tokens_step[OF token_dot] parse_tokens_step[OF token_1]
        parse_tokens_stop[OF parse_token_eof])
  have d: "output_data (write_dword (write_word g TOKEN_INTEGER) (word_of_int (- 42)))
     = output_data g @ [3, 0] @ [0xD6, 0xFF, 0xFF, 0xFF]"
    by (simp add: word_bytes_def dword_bytes_def TOKEN_INTEGER_def)
  have e: "output_data (write_bytes (write_word g TOKEN_FLOAT) (dword_bytes 0x40600000))
     = output_data g @ [42, 0] @ [0x00, 0x00, 0x60, 0x40]"
    by (simp add: word_bytes_def dword_bytes_def TOKEN_FLOAT_def drop_bit_eq_div)
  have f: "sint (word_of_int (- 42) :: DWORD) = - 42" by simp
  from a b c d e f binary32_value_3_5 show ?thesis by blast
qed

subsection \<open>Directive lines\<close>

lemma pragma_long_line:
  "pragma_directive g (c_string (replicate 511 CHR ''a'')) = g"
proof -
  have ne: "replicate 511 CHR ''a'' \<noteq> ''pragma''"
  proof
    assume "replicate 511 CHR ''a'' = ''pragma''"
    then have "length (replicate 511 CHR ''a'') = length ''pragma''" by (rule arg_cong)
    then show False by simp
  qed
  have "replicate 511 CHR ''a'' = CHR ''a'' # replicate 510 CHR ''a''"
    by (simp add: replicate_Suc[symmetric] del: replicate_Suc)
  then have "strtok (replicate 511 CHR ''a'') = Some (replicate 511 CHR ''a'', [])"
    by (simp add: strtok_def is_delim_def)
  with ne show ?thesis
    by (simp add: pragma_directive_def c_string_def)
qed

lemma long_directive_token:
  "parse_token \<lparr>infile = CHR ''#'' # replicate 600 CHR ''a'' @ [CHR 0x0A], line_no = 1\<rparr> g
   = Inr (True, \<lparr>infile = [], line_no = 2\<rparr>, g)"
proof -
  have "directive_loop \<lparr>infile = replicate 600 CHR ''a'' @ CHR 0x0A # [], line_no = 1\<rparr> []
        = (CHR 0x0A, \<lparr>infile = [], line_no = 1 + 1\<rparr>,
           [] @ take (BUFFER_SIZE - 1 - length ([]::string)) (replicate 600 CHR ''a''))"
    by (rule directive_loop_closed) simp
  then have "directive_loop \<lparr>infile = replicate 600 CHR ''a'' @ [CHR 0x0A], line_no = 1\<rparr> []
        = (CHR 0x0A, \<lparr>infile = [], line_no = 2\<rparr>, replicate 511 CHR ''a'')"
    by (simp add: BUFFER_SIZE_def)
  then show ?thesis
    by (simp add: parse_token_def read_byte_def pragma_long_line)
qed

lemma short_directive_token:
  "parse_token \<lparr>infile = ''#pragma'', line_no = 1\<rparr> g = Inl Line_too_long"
proof -
  have "directive_loop \<lparr>infile = ''pragma'', line_no = 1\<rparr> []
        = (EOF_char, \<lparr>infile = [], line_no = 1\<rparr>,
           [] @ take (BUFFER_SIZE - 1 - length ([]::string)) ''pragma'')"
    by (rule directive_loop_open) simp
  then show ?thesis
    by (simp add: parse_token_def read_byte_def EOF_char_def)
qed

text \<open>
  Claim C2, on two inputs after the file header. A \<^verbatim>\<open>#\<close> line of 600 bytes that ends in a
  newline is read without an error (its first 511 bytes are kept, and here they hold no
  pragma); the line \<^verbatim>\<open>#pragma\<close> of 7 bytes at the end of the input, without a newline, is
  the error "line too long".
\<close>

theorem long_directive_line_accepted:
  "main_encode (''xof 0302txt 0064'' @ CHR ''#'' # replicate 600 CHR ''a'' @ [CHR 0x0A])
     initial_globals
   = Inr (\<lparr>infile = [], line_no = 2\<rparr>, started_globals)
   \<and> main_encode (''xof 0302txt 0064'' @ ''#pragma'') initial_globals = Inl Line_too_long"
proof -
  have "parse_tokens \<lparr>infile = CHR ''#'' # replicate 600 CHR ''a'' @ [CHR 0x0A], line_no = 1\<rparr>
          started_globals
        = Inr (\<lparr>infile = [], line_no = 2\<rparr>, started_globals)"
    by (simp add: parse_tokens_step[OF long_directive_token] parse_tokens_stop[OF parse_token_eof])
  moreover have "parse_tokens \<lparr>infile = ''#pragma'', line_no = 1\<rparr> started_globals
        = Inl Line_too_long"
    by (rule parse_tokens_Inl[OF short_directive_token])
  ultimately show ?thesis
    using main_encode_0302_0064[of "CHR ''#'' # replicate 600 CHR ''a'' @ [CHR 0x0A]"]
      main_encode_0302_0064[of "''#pragma''"]
    by simp
qed

subsection \<open>GUID literals\<close>

lemma guid_token:
  "parse_token \<lparr>infile = ''<00000000-0000-0000-0000-000000000000X'', line_no = 1\<rparr> g
   = Inr (True, \<lparr>infile = [], line_no = 1\<rparr>,
          write_bytes (write_word g TOKEN_GUID) (replicate 16 0))"
  by (simp add: parse_token_def read_byte_def parse_guid_def read_bytes_def c_string_def
      guidfmt_def scan_x_def char_class_defs hexadecimal_def xdigit_val_def guid_bytes_def
      dword_bytes_def word_bytes_def numeral_eq_Suc)

text \<open>
  Claim C1, on the input made of the file header and the 38 bytes
  \<^verbatim>\<open><00000000-0000-0000-0000-000000000000X\<close>, where \<^verbatim>\<open>X\<close> stands in the place of the closing
  angle bracket: the run ends without an error and a GUID token of 16 zero bytes is
  written.
\<close>

theorem guid_without_closing_bracket:
  "main_encode (''xof 0302txt 0064'' @ ''<00000000-0000-0000-0000-000000000000X'')
     initial_globals
   = Inr (\<lparr>infile = [], line_no = 1\<rparr>,
          write_bytes (write_word started_globals TOKEN_GUID) (replicate 16 0))"
proof -
  have "parse_tokens \<lparr>infile = ''<00000000-0000-0000-0000-000000000000X'', line_no = 1\<rparr>
          started_globals
        = Inr (\<lparr>infile = [], line_no = 1\<rparr>,
               write_bytes (write_word started_globals TOKEN_GUID) (replicate 16 0))"
    by (simp add: parse_tokens_step[OF guid_token] parse_tokens_stop[OF parse_token_eof])
  then show ?thesis
    using main_encode_0302_0064[of "''<00000000-0000-0000-0000-000000000000X''"] by simp
qed

subsection \<open>Names and keywords\<close>

lemma lower_key_simps [simp]:
  "lower_key [] = []" "lower_key (c # s) = of_char (tolower c) # lower_key s"
  by (simp_all add: lower_key_def)

lemma lower_key_eq_iff: "lower_key a = lower_key b \<longleftrightarrow> caseless_eq a b"
proof (induction a arbitrary: b)
  case Nil
  show ?case by (cases b) (simp_all add: caseless_eq_def)
next
  case (Cons x a)
  then show ?case by (cases b) (auto simp: caseless_eq_def)
qed

lemma tolower_not_NUL: "c \<noteq> CHR 0x00 \<Longrightarrow> (of_char (tolower c) :: nat) \<noteq> 0"
proof -
  assume "c \<noteq> CHR 0x00"
  have "(of_char c :: nat) \<noteq> 0"
  proof
    assume "(of_char c :: nat) = 0"
    then have "(of_char c :: nat) = of_char (CHR 0x00)" by simp
    then have "c = CHR 0x00" by (simp only: of_char_eq_iff)
    with \<open>c \<noteq> CHR 0x00\<close> show False by simp
  qed
  moreover have "(of_char c :: nat) < 256" by simp
  ultimately show ?thesis
    by (auto simp: tolower_def isupper_def)
qed

lemma strcasecmp_sign:
  assumes "CHR 0x00 \<notin> set a" "CHR 0x00 \<notin> set b"
  shows "(strcasecmp a b < 0 \<longleftrightarrow> lower_key a < lower_key b)
       \<and> (strcasecmp a b = 0 \<longleftrightarrow> lower_key a = lower_key b)"
  using assms
proof (induction a b rule: strcasecmp.induct)
  case 1
  show ?case by simp
next
  case (2 y ys)
  then have "y \<noteq> CHR 0x00" by auto
  from tolower_not_NUL[OF this] show ?case by simp
next
  case (3 x xs)
  then have "x \<noteq> CHR 0x00" by auto
  from tolower_not_NUL[OF this] show ?case by simp
next
  case (4 x xs y ys)
  show ?case
  proof (cases "tolower x = tolower y")
    case True
    with 4 show ?thesis by simp
  next
    case False
    then have "(of_char (tolower x) :: nat) \<noteq> of_char (tolower y)" by simp
    with False show ?thesis by auto
  qed
qed

lemma bsearch_Some:
  "bsearch key base l u = Some k \<Longrightarrow>
   \<exists>i. l \<le> i \<and> i < u \<and> k = base ! i \<and> compare_names key (base ! i) = 0"
proof (induction key base l u rule: bsearch.induct)
  case (1 key base l u)
  define idx where "idx = (l + u) div 2"
  define cmp where "cmp = compare_names key (base ! idx)"
  from "1.prems" have lu: "l < u" by (subst (asm) bsearch.simps) (simp split: if_splits)
  then have idx: "l \<le> idx" "idx < u" by (simp_all add: idx_def)
  have step: "bsearch key base l u =
      (if cmp < 0 then bsearch key base l idx
       else if cmp > 0 then bsearch key base (idx + 1) u else Some (base ! idx))"
    using lu by (subst bsearch.simps) (simp add: idx_def cmp_def Let_def)
  consider "cmp < 0" | "cmp > 0" | "cmp = 0" by linarith
  then show ?case
  proof cases
    case 1
    with step "1.prems" have "bsearch key base l idx = Some k" by simp
    from "1.IH"(1)[OF lu idx_def cmp_def 1 this]
    obtain i where "l \<le> i" "i < idx" "k = base ! i" "compare_names key (base ! i) = 0"
      by auto
    with idx show ?thesis by (intro exI[of _ i]) simp
  next
    case 2
    with step "1.prems" have "bsearch key base (idx + 1) u = Some k" by simp
    moreover from 2 have "\<not> cmp < 0" by simp
    ultimately obtain i where "idx + 1 \<le> i" "i < u" "k = base ! i"
        "compare_names key (base ! i) = 0"
      using "1.IH"(2)[OF lu idx_def cmp_def _ 2] by auto
    with idx show ?thesis by (intro exI[of _ i]) simp
  next
    case 3
    with step "1.prems" have "k = base ! idx" by simp
    with 3 idx show ?thesis by (intro exI[of _ idx]) (simp add: cmp_def)
  qed
qed

lemma bsearch_None:
  "bsearch key base l u = None \<Longrightarrow>
   sorted_wrt (<) (map (\<lambda>k. lower_key (word k)) base) \<Longrightarrow>
   CHR 0x00 \<notin> set key \<Longrightarrow> \<forall>k \<in> set base. CHR 0x00 \<notin> set (word k) \<Longrightarrow>
   u \<le> length base \<Longrightarrow> l \<le> i \<Longrightarrow> i < u \<Longrightarrow>
   compare_names key (base ! i) \<noteq> 0"
proof (induction key base l u rule: bsearch.induct)
  case (1 key base l u)
  define idx where "idx = (l + u) div 2"
  define cmp where "cmp = compare_names key (base ! idx)"
  note none = "1.prems"(1) and sorted = "1.prems"(2) and nul = "1.prems"(3,4)
    and u = "1.prems"(5) and li = "1.prems"(6) and iu = "1.prems"(7)
  from li iu have lu: "l < u" by simp
  then have idx: "l \<le> idx" "idx < u" by (simp_all add: idx_def)
  have step: "bsearch key base l u =
      (if cmp < 0 then bsearch key base l idx
       else if cmp > 0 then bsearch key base (idx + 1) u else Some (base ! idx))"
    using lu by (subst bsearch.simps) (simp add: idx_def cmp_def Let_def)
  have K: "lower_key (word (base ! a)) < lower_key (word (base ! b))"
    if "a < b" "b < length base" for a b
    using sorted_wrt_nth_less[OF sorted, of a b] that by simp
  have sign: "(compare_names key (base ! j) < 0 \<longleftrightarrow> lower_key key < lower_key (word (base ! j)))
       \<and> (compare_names key (base ! j) = 0 \<longleftrightarrow> lower_key key = lower_key (word (base ! j)))"
    if "j < length base" for j
    unfolding compare_names_def using nul that by (intro strcasecmp_sign) auto
  from idx u have idxlen: "idx < length base" by simp
  from iu u have ilen: "i < length base" by simp
  consider "cmp < 0" | "cmp > 0" | "cmp = 0" by linarith
  then show ?case
  proof cases
    case 1
    with step none have rec: "bsearch key base l idx = None" by simp
    show ?thesis
    proof (cases "i < idx")
      case True
      from idx u have "idx \<le> length base" by simp
      from "1.IH"(1)[OF lu idx_def cmp_def 1 rec sorted nul this li True] show ?thesis .
    next
      case False
      from 1 sign[OF idxlen] have "lower_key key < lower_key (word (base ! idx))"
        by (simp add: cmp_def)
      moreover have "lower_key (word (base ! idx)) \<le> lower_key (word (base ! i))"
      proof (cases "i = idx")
        case True then show ?thesis by simp
      next
        case ne: False
        with False have "idx < i" by simp
        from K[OF this ilen] show ?thesis by simp
      qed
      ultimately have "lower_key key \<noteq> lower_key (word (base ! i))" by simp
      with sign[OF ilen] show ?thesis by simp
    qed
  next
    case 2
    then have n1: "\<not> cmp < 0" by simp
    from 2 n1 step none have rec: "bsearch key base (idx + 1) u = None" by simp
    show ?thesis
    proof (cases "idx < i")
      case True
      then have "idx + 1 \<le> i" by simp
      from "1.IH"(2)[OF lu idx_def cmp_def n1 2 rec sorted nul u this iu] show ?thesis .
    next
      case False
      from 2 sign[OF idxlen] have "lower_key (word (base ! idx)) < lower_key key"
        by (auto simp: cmp_def)
      moreover have "lower_key (word (base ! i)) \<le> lower_key (word (base ! idx))"
      proof (cases "i = idx")
        case True then show ?thesis by simp
      next
        case ne: False
        with False have "i < idx" by simp
        from K[OF this idxlen] show ?thesis by simp
      qed
      ultimately have "lower_key key \<noteq> lower_key (word (base ! i))" by simp
      with sign[OF ilen] show ?thesis by simp
    qed
  next
    case 3
    with step none show ?thesis by simp
  qed
qed

lemma reserved_words_sorted:
  "sorted_wrt (<) (map (\<lambda>k. lower_key (word k)) reserved_words)"
  by (simp add: reserved_words_def tolower_def isupper_def)

lemma reserved_words_no_NUL: "\<forall>k \<in> set reserved_words. CHR 0x00 \<notin> set (word k)"
  by (simp add: reserved_words_def)

lemma reserved_words_short: "\<forall>k \<in> set reserved_words. length (word k) \<le> 8"
  by (simp add: reserved_words_def)

lemma parse_keyword_find:
  assumes "CHR 0x00 \<notin> set name"
  shows "parse_keyword g name =
     (case find (\<lambda>k. caseless_eq name (word k)) reserved_words of
        None \<Rightarrow> (False, g)
      | Some k \<Rightarrow> (True, write_word g (token k)))"
proof -
  let ?P = "\<lambda>k. caseless_eq name (word k)"
  have sign: "compare_names name k = 0 \<longleftrightarrow> ?P k" if "k \<in> set reserved_words" for k
    unfolding compare_names_def
    using strcasecmp_sign[OF assms, of "word k"] reserved_words_no_NUL that
    by (simp add: lower_key_eq_iff)
  show ?thesis
  proof (cases "bsearch name reserved_words 0 (length reserved_words)")
    case None
    have "\<not> ?P k" if "k \<in> set reserved_words" for k
    proof -
      from that obtain i where i: "i < length reserved_words" "k = reserved_words ! i"
        by (auto simp: in_set_conv_nth)
      from bsearch_None[OF None reserved_words_sorted assms reserved_words_no_NUL _ _ i(1)]
      have "compare_names name (reserved_words ! i) \<noteq> 0" by simp
      with sign[OF that] i show ?thesis by simp
    qed
    then have "find ?P reserved_words = None" by (simp add: find_None_iff)
    with None show ?thesis by (simp add: parse_keyword_def)
  next
    case (Some k)
    from bsearch_Some[OF Some] obtain i where
      i: "i < length reserved_words" "k = reserved_words ! i"
         "compare_names name (reserved_words ! i) = 0"
      by auto
    then have kin: "k \<in> set reserved_words" by simp
    with sign i have Pk: "?P (reserved_words ! i)" by simp
    have "\<not> ?P (reserved_words ! j)" if "j < i" for j
    proof
      assume "?P (reserved_words ! j)"
      with Pk have "lower_key (word (reserved_words ! j)) = lower_key (word (reserved_words ! i))"
        by (simp add: lower_key_eq_iff[symmetric])
      moreover from sorted_wrt_nth_less[OF reserved_words_sorted, of j i] that i(1)
      have "lower_key (word (reserved_words ! j)) < lower_key (word (reserved_words ! i))"
        by simp
      ultimately show False by simp
    qed
    with Pk i have "find ?P reserved_words = Some k"
      by (auto simp: find_Some_iff)
    with Some show ?thesis by (simp add: parse_keyword_def)
  qed
qed

lemma is_name_char_facts:
  "is_name_char x \<Longrightarrow> x \<noteq> CHR 0x0A \<and> x \<noteq> CHR 0x00 \<and> x \<noteq> EOF_char"
  by (auto simp: is_name_char_def char_class_defs)

lemma name_loop_closed:
  assumes "\<forall>x\<in>set s. is_name_char x" "rest = [] \<or> \<not> is_name_char (hd rest)"
    and "length name < BUFFER_SIZE"
  shows "name_loop \<lparr>infile = s @ rest, line_no = n\<rparr> name =
     (case rest of
        [] \<Rightarrow> (EOF_char, \<lparr>infile = [], line_no = n\<rparr>,
               name @ take (BUFFER_SIZE - 1 - length name) s)
      | r # rs \<Rightarrow> (r, \<lparr>infile = rs, line_no = (if r = CHR 0x0A then n + 1 else n)\<rparr>,
                  name @ take (BUFFER_SIZE - 1 - length name) s))"
  using assms
proof (induction s arbitrary: name)
  case Nil
  then show ?case
    by (subst name_loop.simps)
       (auto simp: read_byte_def is_name_char_def split: list.splits)
next
  case (Cons c s)
  from Cons.prems have c: "is_name_char c" and s: "\<forall>x\<in>set s. is_name_char x" by auto
  from is_name_char_facts[OF c] have nl: "c \<noteq> CHR 0x0A" by simp
  define name' where "name' = (if length name + 1 < BUFFER_SIZE then name @ [c] else name)"
  from Cons.prems(3) have len': "length name' < BUFFER_SIZE" by (simp add: name'_def)
  have step: "name_loop \<lparr>infile = (c # s) @ rest, line_no = n\<rparr> name
        = name_loop \<lparr>infile = s @ rest, line_no = n\<rparr> name'"
    using c nl Cons.prems(3)
    by (subst name_loop.simps) (simp add: read_byte_def is_name_char_def name'_def)
  have eq: "name' @ take (BUFFER_SIZE - 1 - length name') s
                 = name @ take (BUFFER_SIZE - 1 - length name) (c # s)"
    using Cons.prems(3) by (auto simp: name'_def BUFFER_SIZE_def take_Cons')
  show ?case
    by (simp only: step Cons.IH[OF s Cons.prems(2) len'] eq)
qed

lemma parse_name_closed:
  assumes "\<forall>x\<in>set s. is_name_char x" "rest = [] \<or> \<not> is_name_char (hd rest)"
  shows "parse_name \<lparr>infile = s @ rest, line_no = n\<rparr> g =
     (True, \<lparr>infile = pushed_back rest, line_no = n\<rparr>,
      (case find (\<lambda>k. caseless_eq (take 511 s) (word k)) reserved_words of
         Some k \<Rightarrow> write_word g (token k)
       | None \<Rightarrow>
           write_bytes (write_dword (write_word g TOKEN_NAME) (of_nat (length (take 511 s))))
             (string_bytes (take 511 s))))"
proof -
  have nul: "CHR 0x00 \<notin> set (take 511 s)"
    using assms(1) is_name_char_facts by (auto dest!: in_set_takeD)
  note loop = name_loop_closed[OF assms, of "[]" n, simplified BUFFER_SIZE_def, simplified]
  note kw = parse_keyword_find[OF nul, of g]
  show ?thesis
  proof (cases rest)
    case Nil
    with loop kw show ?thesis
      by (cases "find (\<lambda>k. caseless_eq (take 511 s) (word k)) reserved_words")
         (simp_all add: parse_name_def unread_byte_def EOF_char_def pushed_back_def)
  next
    case (Cons r rs)
    with loop kw show ?thesis
      by (cases "find (\<lambda>k. caseless_eq (take 511 s) (word k)) reserved_words")
         (auto simp add: parse_name_def unread_byte_def EOF_char_def pushed_back_def Let_def)
  qed
qed

lemma caseless_eq_take:
  assumes "k \<in> set reserved_words"
  shows "caseless_eq (take 511 s) (word k) = caseless_eq s (word k)"
proof (cases "length s \<le> 511")
  case True
  then show ?thesis by simp
next
  case False
  from assms reserved_words_short have "length (word k) \<le> 8" by blast
  with False have "length (map tolower (take 511 s)) \<noteq> length (map tolower (word k))"
    "length (map tolower s) \<noteq> length (map tolower (word k))"
    by simp_all
  then have "map tolower (take 511 s) \<noteq> map tolower (word k)"
    "map tolower s \<noteq> map tolower (word k)"
    by metis+
  then show ?thesis by (simp add: caseless_eq_def)
qed

lemma find_keyword_take:
  "find (\<lambda>k. caseless_eq (take 511 s) (word k)) reserved_words
   = find (\<lambda>k. caseless_eq s (word k)) reserved_words"
  by (rule find_cong) (simp_all add: caseless_eq_take)

lemma name_start_dispatch:
  assumes "isalpha c \<or> c = CHR ''_''"
  shows "parse_token \<lparr>infile = c # cs, line_no = n\<rparr> g
         = Inr (parse_name \<lparr>infile = c # cs, line_no = n\<rparr> g)"
proof -
  from assms have "c \<noteq> CHR 0x0A" "c \<noteq> CHR 0x0D" "c \<noteq> CHR '' ''" "c \<noteq> CHR 0x09"
    "c \<noteq> CHR ''{''" "c \<noteq> CHR ''}''" "c \<noteq> CHR ''[''" "c \<noteq> CHR '']''" "c \<noteq> CHR ''(''"
    "c \<noteq> CHR '')''" "c \<noteq> CHR '',''" "c \<noteq> CHR '';''" "c \<noteq> CHR ''.''" "c \<noteq> CHR ''/''"
    "c \<noteq> CHR ''#''" "c \<noteq> CHR ''<''" "c \<noteq> CHR 0x22" "\<not> isdigit c" "c \<noteq> CHR ''-''"
    "c \<noteq> EOF_char"
    by (auto simp: char_class_defs)
  with assms show ?thesis
    by (simp add: parse_token_def read_byte_def unread_byte_def)
qed

lemma parse_token_name:
  assumes "isalpha c \<or> c = CHR ''_''"
    and "\<forall>x\<in>set s. is_name_char x"
    and "rest = [] \<or> \<not> is_name_char (hd rest)"
  shows "parse_token \<lparr>infile = c # s @ rest, line_no = n\<rparr> g =
     Inr (True, \<lparr>infile = pushed_back rest, line_no = n\<rparr>,
          (case find (\<lambda>k. caseless_eq (c # s) (word k)) reserved_words of
             Some k \<Rightarrow> write_word g (token k)
           | None \<Rightarrow>
               write_bytes
                 (write_dword (write_word g TOKEN_NAME) (of_nat (length (take 511 (c # s)))))
                 (string_bytes (take 511 (c # s)))))"
proof -
  from assms(1) have "is_name_char c" by (auto simp: is_name_char_def isalnum_def)
  with assms(2) have all: "\<forall>x\<in>set (c # s). is_name_char x" by simp
  from parse_name_closed[OF all assms(3), of n g] name_start_dispatch[OF assms(1), of "s @ rest" n g]
  show ?thesis by (simp only: find_keyword_take append_Cons)
qed

lemma long_name_no_keyword:
  assumes "8 < length s"
  shows "find (\<lambda>k. caseless_eq s (word k)) reserved_words = None"
proof -
  have "\<not> caseless_eq s (word k)" if "k \<in> set reserved_words" for k
  proof
    assume "caseless_eq s (word k)"
    then have "length (map tolower s) = length (map tolower (word k))"
      unfolding caseless_eq_def by (rule arg_cong)
    with reserved_words_short that assms show False by auto
  qed
  then show ?thesis by (simp add: find_None_iff)
qed

lemma find_keyword_unique:
  assumes "k \<in> set reserved_words" "caseless_eq s (word k)"
  shows "find (\<lambda>k. caseless_eq s (word k)) reserved_words = Some k"
proof -
  from assms(1) obtain i where i: "i < length reserved_words" "k = reserved_words ! i"
    by (auto simp: in_set_conv_nth)
  have "\<not> caseless_eq s (word (reserved_words ! j))" if "j < i" for j
  proof
    assume "caseless_eq s (word (reserved_words ! j))"
    with assms(2) i
    have "lower_key (word (reserved_words ! j)) = lower_key (word (reserved_words ! i))"
      by (simp add: lower_key_eq_iff[symmetric])
    moreover from sorted_wrt_nth_less[OF reserved_words_sorted, of j i] that i(1)
    have "lower_key (word (reserved_words ! j)) < lower_key (word (reserved_words ! i))"
      by simp
    ultimately show False by simp
  qed
  with assms(2) i show ?thesis by (auto simp: find_Some_iff)
qed

lemma name_token_replicate:
  assumes "rest = [] \<or> \<not> is_name_char (hd rest)"
    and n: "8 < n" and x: "is_name_char x" "isalpha x"
  shows "parse_token \<lparr>infile = replicate n x @ rest, line_no = 1\<rparr> g
   = Inr (True, \<lparr>infile = pushed_back rest, line_no = 1\<rparr>,
          write_bytes (write_dword (write_word g TOKEN_NAME) (of_nat (min 511 n)))
            (string_bytes (replicate (min 511 n) x)))"
proof -
  from n obtain m where m: "n = Suc m" by (cases n) auto
  have eq: "replicate n x = x # replicate m x" by (simp add: m)
  have tk: "take 511 (x # replicate m x) = replicate (min 511 n) x"
    unfolding eq[symmetric] by simp
  have none: "find (\<lambda>k. caseless_eq (x # replicate m x) (word k)) reserved_words = None"
    using n m by (intro long_name_no_keyword) simp
  have "parse_token \<lparr>infile = x # replicate m x @ rest, line_no = 1\<rparr> g =
     Inr (True, \<lparr>infile = pushed_back rest, line_no = 1\<rparr>,
          (case find (\<lambda>k. caseless_eq (x # replicate m x) (word k)) reserved_words of
             Some k \<Rightarrow> write_word g (token k)
           | None \<Rightarrow>
               write_bytes
                 (write_dword (write_word g TOKEN_NAME)
                    (of_nat (length (take 511 (x # replicate m x)))))
                 (string_bytes (take 511 (x # replicate m x)))))"
    using x assms(1) by (intro parse_token_name) auto
  then have "parse_token \<lparr>infile = x # replicate m x @ rest, line_no = 1\<rparr> g =
     Inr (True, \<lparr>infile = pushed_back rest, line_no = 1\<rparr>,
          write_bytes
            (write_dword (write_word g TOKEN_NAME) (of_nat (length (replicate (min 511 n) x))))
            (string_bytes (replicate (min 511 n) x)))"
    by (simp only: none tk option.case)
  then show ?thesis by (simp add: eq)
qed

lemma token_space:
  "parse_token \<lparr>infile = CHR '' '' # rest, line_no = n\<rparr> g
   = Inr (True, \<lparr>infile = rest, line_no = n\<rparr>, g)"
  by (simp add: parse_token_def read_byte_def)

lemma roomy_reached:
  "main_encode (''xof 0302txt 0064'' @ replicate 42 CHR ''a'' @ '' ''
                 @ replicate 186 CHR ''b'' @ '' '') initial_globals
   = Inr (\<lparr>infile = [], line_no = 1\<rparr>, roomy_globals)"
proof -
  have a: "is_name_char CHR ''a''" "isalpha CHR ''a''" "is_name_char CHR ''b''" "isalpha CHR ''b''"
    "\<not> is_name_char CHR '' ''"
    by (simp_all add: is_name_char_def char_class_defs)
  have pb: "pushed_back (CHR '' '' # r) = CHR '' '' # r" for r
    by (simp add: pushed_back_def EOF_char_def)
  let ?g1 = "write_bytes (write_dword (write_word started_globals TOKEN_NAME) 42)
            (string_bytes (replicate 42 CHR ''a''))"
  let ?g2 = "write_bytes (write_dword (write_word ?g1 TOKEN_NAME) 186)
            (string_bytes (replicate 186 CHR ''b''))"
  have t1: "parse_token \<lparr>infile = replicate 42 CHR ''a'' @ '' '' @ replicate 186 CHR ''b'' @ '' '',
                           line_no = 1\<rparr> started_globals
            = Inr (True, \<lparr>infile = '' '' @ replicate 186 CHR ''b'' @ '' '', line_no = 1\<rparr>, ?g1)"
    using name_token_replicate[of "'' '' @ replicate 186 CHR ''b'' @ '' ''" 42 "CHR ''a''" started_globals] a
    by (simp add: pb)
  have t2: "parse_token \<lparr>infile = replicate 186 CHR ''b'' @ '' '', line_no = 1\<rparr> ?g1
            = Inr (True, \<lparr>infile = '' '', line_no = 1\<rparr>, ?g2)"
    using name_token_replicate[of "'' ''" 186 "CHR ''b''" ?g1] a
    by (simp add: pb)
  have run: "parse_tokens \<lparr>infile = replicate 42 CHR ''a'' @ '' '' @ replicate 186 CHR ''b'' @ '' '',
                           line_no = 1\<rparr> started_globals
             = Inr (\<lparr>infile = [], line_no = 1\<rparr>, ?g2)"
    using parse_tokens_step[OF t1] parse_tokens_step[OF t2]
    by (simp add: parse_tokens_step[OF token_space] parse_tokens_stop[OF parse_token_eof])
  have "?g2 = roomy_globals"
    by (simp add: roomy_globals_def started_globals_def initial_globals_def write_dword_def
        write_word_def write_bytes_def grow_output_def word_bytes_def dword_bytes_def
        string_bytes_def Let_def)
  with run show ?thesis
    using main_encode_0302_0064[of "replicate 42 CHR ''a'' @ '' '' @ replicate 186 CHR ''b'' @ '' ''"]
    by simp
qed

lemma roomy_counters:
  "output_pos roomy_globals = 256" "output_size roomy_globals = 256"
  by (simp_all add: roomy_globals_def)

lemma roomy_fits:
  "append_fits roomy_globals 2"
  "append_fits (write_word roomy_globals w) 4"
  "append_fits (write_dword (write_word roomy_globals w) v) 511"
proof -
  have 1: "output_pos (write_word roomy_globals w) = 258"
          "output_size (write_word roomy_globals w) = 512"
    by (simp_all add: write_word_def write_bytes_def grow_output_def roomy_counters
        word_bytes_def Let_def)
  have 2: "output_pos (write_dword (write_word roomy_globals w) v) = 262"
          "output_size (write_dword (write_word roomy_globals w) v) = 512"
    by (simp_all add: write_dword_def write_bytes_def grow_output_def 1 dword_bytes_def Let_def)
  show "append_fits roomy_globals 2"
    by (simp add: append_fits_def grow_output_def roomy_counters)
  show "append_fits (write_word roomy_globals w) 4"
    by (simp add: append_fits_def grow_output_def 1)
  show "append_fits (write_dword (write_word roomy_globals w) v) 511"
    by (simp add: append_fits_def grow_output_def 2)
qed

lemma states_differ:
  "length a \<noteq> length b \<Longrightarrow>
   write_bytes (write_dword (write_word g w) v) a \<noteq> write_bytes (write_dword (write_word g w) v') b"
proof
  assume len: "length a \<noteq> length b"
  assume "write_bytes (write_dword (write_word g w) v) a
          = write_bytes (write_dword (write_word g w) v') b"
  then have "output_data (write_bytes (write_dword (write_word g w) v) a)
          = output_data (write_bytes (write_dword (write_word g w) v') b)" by simp
  then have "length (output_data g @ word_bytes w @ dword_bytes v @ a)
          = length (output_data g @ word_bytes w @ dword_bytes v' @ b)" by simp
  with len show False by (simp add: dword_bytes_def)
qed

lemma string_token_closed:
  assumes "CHR 0x22 \<notin> set s"
  shows "parse_token \<lparr>infile = CHR 0x22 # s @ CHR 0x22 # rest, line_no = n\<rparr> g
     = Inr (True, \<lparr>infile = rest, line_no = n + newlines s\<rparr>,
            write_bytes (write_dword (write_word g TOKEN_STRING) (of_nat (length (take 511 s))))
              (string_bytes (take 511 s)))"
proof -
  have "string_loop \<lparr>infile = s @ CHR 0x22 # rest, line_no = n\<rparr> []
        = (CHR 0x22, \<lparr>infile = rest, line_no = n + newlines s\<rparr>,
           [] @ take (BUFFER_SIZE - 1 - length ([]::string)) s)"
    by (rule string_loop_closed[OF assms])
  then show ?thesis
    by (simp add: parse_token_def read_byte_def BUFFER_SIZE_def)
qed

lemma write_bytes_inside:
  assumes "append_fits g (length bs)"
  shows "inside_allocation (write_bytes g bs)"
proof -
  define g1 where "g1 = grow_output g (of_nat (length bs))"
  have "unat (output_pos g1 + of_nat (length bs)) \<le> unat (output_pos g1) + length bs"
  proof -
    have "unat (output_pos g1 + of_nat (length bs))
          = (unat (output_pos g1) + unat (of_nat (length bs) :: 32 word)) mod 2 ^ 32"
      by (simp add: unat_word_ariths)
    also have "\<dots> \<le> unat (output_pos g1) + unat (of_nat (length bs) :: 32 word)"
      by (rule mod_less_eq_dividend)
    also have "unat (of_nat (length bs) :: 32 word) \<le> length bs"
      by (simp add: unat_of_nat)
    finally show ?thesis by simp
  qed
  also from assms have "\<dots> \<le> unat (output_size g1)"
    by (simp add: append_fits_def g1_def)
  finally show ?thesis
    by (simp add: inside_allocation_def write_bytes_def Let_def g1_def)
qed


lemma length_string_bytes [simp]: "length (string_bytes s) = length s"
  by (simp add: string_bytes_def)

lemma length_word_bytes [simp]: "length (word_bytes v) = 2"
  by (simp add: word_bytes_def)

lemma started_fits:
  "append_fits initial_globals 16"
  "append_fits started_globals 2"
  "counted_token_fits started_globals TOKEN_NAME (string_bytes ''MyMesh-1'')"
  "counted_token_fits started_globals TOKEN_NAME (string_bytes (replicate 42 CHR ''a''))"
  "counted_token_fits
     (write_bytes (write_dword (write_word started_globals TOKEN_NAME) 42)
        (string_bytes (replicate 42 CHR ''a'')))
     TOKEN_NAME (string_bytes (replicate 186 CHR ''b''))"
  by (simp_all add: counted_token_fits_def append_fits_def grow_output_def write_dword_def
      write_word_def write_bytes_def started_counters initial_globals_def word_bytes_def
      dword_bytes_def Let_def)

lemma roomy_token_fits:
  "length payload = 511 \<Longrightarrow> counted_token_fits roomy_globals code payload"
  using roomy_fits(1) roomy_fits(2)[of code] roomy_fits(3)[of code 511]
  by (simp add: counted_token_fits_def)

text \<open>
  Claim C5, as the code has it. An identifier is a letter or underscore followed by name
  bytes, up to the end of the input or a byte that is no name byte. If it equals a reserved
  word of the table under case-insensitive comparison of the whole text, the token is that
  word's code alone. If it equals none, the token is the code of a name, the length of the
  payload in 32 bits and the payload: the identifier itself when it has at most 511 bytes,
  its first 511 bytes otherwise. This holds of every state of the output buffer in which
  each append of the token stays inside the allocation, and the token then ends inside the
  allocation. The table is the fourteen words of the source.
\<close>

theorem name_rule:
  assumes "isalpha c \<or> c = CHR ''_''"
    and "\<forall>x\<in>set s. is_name_char x"
    and "rest = [] \<or> \<not> is_name_char (hd rest)"
  shows "(\<forall>k\<in>set reserved_words. caseless_eq (c # s) (word k) \<and> append_fits g 2 \<longrightarrow>
            parse_token \<lparr>infile = c # s @ rest, line_no = n\<rparr> g
            = Inr (True, \<lparr>infile = pushed_back rest, line_no = n\<rparr>, write_word g (token k))
            \<and> inside_allocation (write_word g (token k)))
       \<and> ((\<forall>k\<in>set reserved_words. \<not> caseless_eq (c # s) (word k))
           \<and> counted_token_fits g TOKEN_NAME (string_bytes (take 511 (c # s))) \<longrightarrow>
            parse_token \<lparr>infile = c # s @ rest, line_no = n\<rparr> g
            = Inr (True, \<lparr>infile = pushed_back rest, line_no = n\<rparr>,
                   write_bytes
                     (write_dword (write_word g TOKEN_NAME)
                        (of_nat (length (take 511 (c # s)))))
                     (string_bytes (take 511 (c # s))))
            \<and> inside_allocation
                 (write_bytes
                    (write_dword (write_word g TOKEN_NAME)
                       (of_nat (length (take 511 (c # s)))))
                    (string_bytes (take 511 (c # s)))))
       \<and> map (\<lambda>k. (word k, token k)) reserved_words
           = [(''ARRAY'', TOKEN_ARRAY), (''CHAR'', TOKEN_CHAR), (''CSTRING'', TOKEN_CSTRING),
              (''DOUBLE'', TOKEN_DOUBLE), (''DWORD'', TOKEN_DWORD), (''FLOAT'', TOKEN_FLOAT),
              (''SDWORD'', TOKEN_SDWORD), (''STRING'', TOKEN_LPSTR), (''SWORD'', TOKEN_SWORD),
              (''TEMPLATE'', TOKEN_TEMPLATE), (''UCHAR'', TOKEN_UCHAR),
              (''UNICODE'', TOKEN_UNICODE), (''VOID'', TOKEN_VOID), (''WORD'', TOKEN_WORD)]"
proof -
  note tok = parse_token_name[OF assms, of n g]
  have 1: "parse_token \<lparr>infile = c # s @ rest, line_no = n\<rparr> g
            = Inr (True, \<lparr>infile = pushed_back rest, line_no = n\<rparr>, write_word g (token k))
           \<and> inside_allocation (write_word g (token k))"
    if "k \<in> set reserved_words" "caseless_eq (c # s) (word k)" "append_fits g 2" for k
  proof -
    from that(3) have "inside_allocation (write_word g (token k))"
      unfolding write_word_def by (intro write_bytes_inside) simp
    with tok find_keyword_unique[OF that(1,2)] show ?thesis by simp
  qed
  have 2: "parse_token \<lparr>infile = c # s @ rest, line_no = n\<rparr> g
            = Inr (True, \<lparr>infile = pushed_back rest, line_no = n\<rparr>,
                   write_bytes
                     (write_dword (write_word g TOKEN_NAME)
                        (of_nat (length (take 511 (c # s)))))
                     (string_bytes (take 511 (c # s))))
           \<and> inside_allocation
                 (write_bytes
                    (write_dword (write_word g TOKEN_NAME)
                       (of_nat (length (take 511 (c # s)))))
                    (string_bytes (take 511 (c # s))))"
    if no: "\<forall>k\<in>set reserved_words. \<not> caseless_eq (c # s) (word k)"
      and fits: "counted_token_fits g TOKEN_NAME (string_bytes (take 511 (c # s)))"
  proof -
    from no have "find (\<lambda>k. caseless_eq (c # s) (word k)) reserved_words = None"
      by (simp add: find_None_iff)
    with tok have run: "parse_token \<lparr>infile = c # s @ rest, line_no = n\<rparr> g
            = Inr (True, \<lparr>infile = pushed_back rest, line_no = n\<rparr>,
                   write_bytes
                     (write_dword (write_word g TOKEN_NAME)
                        (of_nat (length (take 511 (c # s)))))
                     (string_bytes (take 511 (c # s))))"
      by simp
    from fits have "append_fits
        (write_dword (write_word g TOKEN_NAME) (of_nat (length (take 511 (c # s)))))
        (length (string_bytes (take 511 (c # s))))"
      by (simp add: counted_token_fits_def)
    from write_bytes_inside[OF this] run show ?thesis by simp
  qed
  have 3: "map (\<lambda>k. (word k, token k)) reserved_words
           = [(''ARRAY'', TOKEN_ARRAY), (''CHAR'', TOKEN_CHAR), (''CSTRING'', TOKEN_CSTRING),
              (''DOUBLE'', TOKEN_DOUBLE), (''DWORD'', TOKEN_DWORD), (''FLOAT'', TOKEN_FLOAT),
              (''SDWORD'', TOKEN_SDWORD), (''STRING'', TOKEN_LPSTR), (''SWORD'', TOKEN_SWORD),
              (''TEMPLATE'', TOKEN_TEMPLATE), (''UCHAR'', TOKEN_UCHAR),
              (''UNICODE'', TOKEN_UNICODE), (''VOID'', TOKEN_VOID), (''WORD'', TOKEN_WORD)]"
    by (simp add: reserved_words_def)
  from 1 2 3 show ?thesis by blast
qed

theorem name_rule_witness:
  "append_fits started_globals 2
   \<and> parse_token \<lparr>infile = ''Template x'', line_no = 1\<rparr> started_globals
   = Inr (True, \<lparr>infile = '' x'', line_no = 1\<rparr>, write_word started_globals TOKEN_TEMPLATE)
   \<and> inside_allocation (write_word started_globals TOKEN_TEMPLATE)
   \<and> counted_token_fits started_globals TOKEN_NAME (string_bytes ''MyMesh-1'')
   \<and> parse_token \<lparr>infile = ''MyMesh-1 {'', line_no = 1\<rparr> started_globals
   = Inr (True, \<lparr>infile = '' {'', line_no = 1\<rparr>,
          write_bytes (write_dword (write_word started_globals TOKEN_NAME) 8)
            (string_bytes ''MyMesh-1''))
   \<and> inside_allocation
        (write_bytes (write_dword (write_word started_globals TOKEN_NAME) 8)
           (string_bytes ''MyMesh-1''))"
proof -
  have kw: "\<lparr>word = ''TEMPLATE'', token = TOKEN_TEMPLATE\<rparr> \<in> set reserved_words"
    by (simp add: reserved_words_def)
  have eq: "caseless_eq ''Template'' (word \<lparr>word = ''TEMPLATE'', token = TOKEN_TEMPLATE\<rparr>)"
    by (simp add: caseless_eq_def char_class_defs char_of_def bit_iff_odd drop_bit_eq_div)
  have no: "\<forall>k\<in>set reserved_words. \<not> caseless_eq ''MyMesh-1'' (word k)"
    by (simp add: reserved_words_def caseless_eq_def char_class_defs char_of_def bit_iff_odd
        drop_bit_eq_div)
  have pb: "pushed_back '' x'' = '' x''" "pushed_back '' {'' = '' {''"
    by (simp_all add: pushed_back_def EOF_char_def)
  have tk: "take 511 ''MyMesh-1'' = ''MyMesh-1''" by simp
  have ta: "isalpha CHR ''T'' \<or> CHR ''T'' = CHR ''_''" "\<forall>x\<in>set ''emplate''. is_name_char x"
    "'' x'' = [] \<or> \<not> is_name_char (hd '' x'')"
    by (simp_all add: is_name_char_def char_class_defs)
  have tb: "isalpha CHR ''M'' \<or> CHR ''M'' = CHR ''_''" "\<forall>x\<in>set ''yMesh-1''. is_name_char x"
    "'' {'' = [] \<or> \<not> is_name_char (hd '' {'')"
    by (simp_all add: is_name_char_def char_class_defs)
  have a: "parse_token \<lparr>infile = CHR ''T'' # ''emplate'' @ '' x'', line_no = 1\<rparr> started_globals
        = Inr (True, \<lparr>infile = pushed_back '' x'', line_no = 1\<rparr>,
               write_word started_globals (token \<lparr>word = ''TEMPLATE'', token = TOKEN_TEMPLATE\<rparr>))
        \<and> inside_allocation
            (write_word started_globals (token \<lparr>word = ''TEMPLATE'', token = TOKEN_TEMPLATE\<rparr>))"
    using name_rule[OF ta, of started_globals 1, THEN conjunct1, THEN bspec, OF kw] eq
      started_fits(2)
    by simp
  have b: "parse_token \<lparr>infile = CHR ''M'' # ''yMesh-1'' @ '' {'', line_no = 1\<rparr> started_globals
        = Inr (True, \<lparr>infile = pushed_back '' {'', line_no = 1\<rparr>,
               write_bytes
                 (write_dword (write_word started_globals TOKEN_NAME)
                    (of_nat (length (take 511 ''MyMesh-1''))))
                 (string_bytes (take 511 ''MyMesh-1'')))
        \<and> inside_allocation
            (write_bytes
                 (write_dword (write_word started_globals TOKEN_NAME)
                    (of_nat (length (take 511 ''MyMesh-1''))))
                 (string_bytes (take 511 ''MyMesh-1'')))"
    using name_rule[OF tb, of started_globals 1, THEN conjunct2, THEN conjunct1] no
      started_fits(3)
    by simp
  from a b started_fits(2,3) show ?thesis by (simp add: pb)
qed

theorem name_rule_counterexample:
  "main_encode (''xof 0302txt 0064'' @ replicate 42 CHR ''a'' @ '' ''
                 @ replicate 186 CHR ''b'' @ '' '') initial_globals
   = Inr (\<lparr>infile = [], line_no = 1\<rparr>, roomy_globals)
   \<and> append_fits initial_globals 16
   \<and> counted_token_fits started_globals TOKEN_NAME (string_bytes (replicate 42 CHR ''a''))
   \<and> counted_token_fits
        (write_bytes (write_dword (write_word started_globals TOKEN_NAME) 42)
           (string_bytes (replicate 42 CHR ''a'')))
        TOKEN_NAME (string_bytes (replicate 186 CHR ''b''))
   \<and> counted_token_fits roomy_globals TOKEN_NAME (string_bytes (replicate 511 CHR ''a''))
   \<and> parse_token \<lparr>infile = replicate 600 CHR ''a'', line_no = 1\<rparr> roomy_globals
   = Inr (True, \<lparr>infile = [], line_no = 1\<rparr>,
          write_bytes (write_dword (write_word roomy_globals TOKEN_NAME) 511)
            (string_bytes (replicate 511 CHR ''a'')))
   \<and> parse_token \<lparr>infile = replicate 600 CHR ''a'', line_no = 1\<rparr> roomy_globals
   \<noteq> Inr (True, \<lparr>infile = [], line_no = 1\<rparr>,
          write_bytes (write_dword (write_word roomy_globals TOKEN_NAME) 600)
            (string_bytes (replicate 600 CHR ''a'')))"
proof -
  have a: "is_name_char CHR ''a''" "isalpha CHR ''a''"
    by (simp_all add: is_name_char_def char_class_defs)
  have tok: "parse_token \<lparr>infile = replicate 600 CHR ''a'', line_no = 1\<rparr> roomy_globals
   = Inr (True, \<lparr>infile = [], line_no = 1\<rparr>,
          write_bytes (write_dword (write_word roomy_globals TOKEN_NAME) 511)
            (string_bytes (replicate 511 CHR ''a'')))"
    using name_token_replicate[of "[]" 600 "CHR ''a''" roomy_globals] a
    by (simp add: pushed_back_def)
  have "write_bytes (write_dword (write_word roomy_globals TOKEN_NAME) 511)
            (string_bytes (replicate 511 CHR ''a''))
     \<noteq> write_bytes (write_dword (write_word roomy_globals TOKEN_NAME) 600)
            (string_bytes (replicate 600 CHR ''a''))"
    by (rule states_differ) simp
  with tok roomy_reached started_fits(1,4,5)
    roomy_token_fits[of "string_bytes (replicate 511 CHR ''a'')" TOKEN_NAME]
  show ?thesis by simp
qed

text \<open>
  Claim C3, as the code has it. A string literal or a name of more than 511 bytes is
  encoded without an error; the payload is its first 511 bytes (the buffer of 512 bytes
  keeps one byte for the terminator) and the length in front of the payload is 511. This
  holds of every state of the output buffer in which each append of the token stays inside
  the allocation, and the token then ends inside the allocation.
\<close>

theorem long_text_truncated:
  "(CHR 0x22 \<notin> set s \<and> 511 < length s
      \<and> counted_token_fits g TOKEN_STRING (string_bytes (take 511 s)) \<longrightarrow>
      parse_token \<lparr>infile = CHR 0x22 # s @ CHR 0x22 # rest, line_no = n\<rparr> g
      = Inr (True, \<lparr>infile = rest, line_no = n + newlines s\<rparr>,
             write_bytes (write_dword (write_word g TOKEN_STRING) 511)
               (string_bytes (take 511 s)))
      \<and> length (string_bytes (take 511 s)) = 511
      \<and> inside_allocation
           (write_bytes (write_dword (write_word g TOKEN_STRING) 511)
              (string_bytes (take 511 s))))
   \<and> ((isalpha c \<or> c = CHR ''_'') \<and> (\<forall>x\<in>set t. is_name_char x)
        \<and> (rest = [] \<or> \<not> is_name_char (hd rest)) \<and> 511 < length (c # t)
        \<and> counted_token_fits g TOKEN_NAME (string_bytes (take 511 (c # t))) \<longrightarrow>
      parse_token \<lparr>infile = c # t @ rest, line_no = n\<rparr> g
      = Inr (True, \<lparr>infile = pushed_back rest, line_no = n\<rparr>,
             write_bytes (write_dword (write_word g TOKEN_NAME) 511)
               (string_bytes (take 511 (c # t))))
      \<and> length (string_bytes (take 511 (c # t))) = 511
      \<and> inside_allocation
           (write_bytes (write_dword (write_word g TOKEN_NAME) 511)
              (string_bytes (take 511 (c # t)))))"
proof -
  have ins: "inside_allocation (write_bytes (write_dword (write_word g code) 511) payload)"
    if "counted_token_fits g code payload" "length payload = 511" for code payload
  proof -
    from that have "append_fits (write_dword (write_word g code) 511) (length payload)"
      by (simp add: counted_token_fits_def)
    then show ?thesis by (rule write_bytes_inside)
  qed
  have str: "parse_token \<lparr>infile = CHR 0x22 # s @ CHR 0x22 # rest, line_no = n\<rparr> g
      = Inr (True, \<lparr>infile = rest, line_no = n + newlines s\<rparr>,
             write_bytes (write_dword (write_word g TOKEN_STRING) 511)
               (string_bytes (take 511 s)))
      \<and> length (string_bytes (take 511 s)) = 511
      \<and> inside_allocation
           (write_bytes (write_dword (write_word g TOKEN_STRING) 511)
              (string_bytes (take 511 s)))"
    if "CHR 0x22 \<notin> set s" "511 < length s"
      "counted_token_fits g TOKEN_STRING (string_bytes (take 511 s))"
  proof -
    from that(2) have len: "length (take 511 s) = 511" by simp
    then have "length (string_bytes (take 511 s)) = 511" by simp
    from ins[OF that(3) this] string_token_closed[OF that(1), of rest n g] len
    show ?thesis by simp
  qed
  have name: "parse_token \<lparr>infile = c # t @ rest, line_no = n\<rparr> g
      = Inr (True, \<lparr>infile = pushed_back rest, line_no = n\<rparr>,
             write_bytes (write_dword (write_word g TOKEN_NAME) 511)
               (string_bytes (take 511 (c # t))))
      \<and> length (string_bytes (take 511 (c # t))) = 511
      \<and> inside_allocation
           (write_bytes (write_dword (write_word g TOKEN_NAME) 511)
              (string_bytes (take 511 (c # t))))"
    if "isalpha c \<or> c = CHR ''_''" "\<forall>x\<in>set t. is_name_char x"
      "rest = [] \<or> \<not> is_name_char (hd rest)" "511 < length (c # t)"
      "counted_token_fits g TOKEN_NAME (string_bytes (take 511 (c # t)))"
  proof -
    from that(4) have len: "length (take 511 (c # t)) = 511" by simp
    then have l2: "length (string_bytes (take 511 (c # t))) = 511" by simp
    from that(4) have "find (\<lambda>k. caseless_eq (c # t) (word k)) reserved_words = None"
      by (intro long_name_no_keyword) simp
    with parse_token_name[OF that(1,2,3), of n g] len ins[OF that(5) l2] l2 show ?thesis
      by simp
  qed
  from str name show ?thesis by blast
qed

theorem long_text_truncated_witness:
  "counted_token_fits roomy_globals TOKEN_STRING (string_bytes (replicate 511 CHR ''a''))
   \<and> parse_token \<lparr>infile = CHR 0x22 # replicate 600 CHR ''a'' @ CHR 0x22 # '';'', line_no = 1\<rparr>
     roomy_globals
   = Inr (True, \<lparr>infile = '';'', line_no = 1\<rparr>,
          write_bytes (write_dword (write_word roomy_globals TOKEN_STRING) 511)
            (string_bytes (replicate 511 CHR ''a'')))
   \<and> inside_allocation
        (write_bytes (write_dword (write_word roomy_globals TOKEN_STRING) 511)
           (string_bytes (replicate 511 CHR ''a'')))
   \<and> counted_token_fits roomy_globals TOKEN_NAME
        (string_bytes (CHR ''b'' # replicate 510 CHR ''a''))
   \<and> parse_token \<lparr>infile = CHR ''b'' # replicate 599 CHR ''a'' @ '';'', line_no = 1\<rparr>
     roomy_globals
   = Inr (True, \<lparr>infile = '';'', line_no = 1\<rparr>,
          write_bytes (write_dword (write_word roomy_globals TOKEN_NAME) 511)
            (string_bytes (CHR ''b'' # replicate 510 CHR ''a'')))
   \<and> inside_allocation
        (write_bytes (write_dword (write_word roomy_globals TOKEN_NAME) 511)
           (string_bytes (CHR ''b'' # replicate 510 CHR ''a'')))"
proof -
  have a: "is_name_char CHR ''a''" "isalpha CHR ''b''" "\<not> is_name_char CHR '';''"
    by (simp_all add: is_name_char_def char_class_defs)
  have pb: "pushed_back '';'' = '';''" by (simp add: pushed_back_def EOF_char_def)
  have tk: "take 511 (CHR ''b'' # replicate 599 CHR ''a'') = CHR ''b'' # replicate 510 CHR ''a''"
    by (simp add: take_Cons')
  have f1: "counted_token_fits roomy_globals TOKEN_STRING (string_bytes (replicate 511 CHR ''a''))"
    by (rule roomy_token_fits) simp
  have f2: "counted_token_fits roomy_globals TOKEN_NAME
        (string_bytes (CHR ''b'' # replicate 510 CHR ''a''))"
    by (rule roomy_token_fits) simp
  from long_text_truncated
    [of "replicate 600 CHR ''a''" roomy_globals "'';''" 1 "CHR ''b''" "replicate 599 CHR ''a''"]
    a f1 f2
  show ?thesis by (simp add: pb newlines_def tk)
qed

theorem long_text_truncated_counterexample:
  "main_encode (''xof 0302txt 0064'' @ replicate 42 CHR ''a'' @ '' ''
                 @ replicate 186 CHR ''b'' @ '' '') initial_globals
   = Inr (\<lparr>infile = [], line_no = 1\<rparr>, roomy_globals)
   \<and> append_fits initial_globals 16
   \<and> counted_token_fits started_globals TOKEN_NAME (string_bytes (replicate 42 CHR ''a''))
   \<and> counted_token_fits
        (write_bytes (write_dword (write_word started_globals TOKEN_NAME) 42)
           (string_bytes (replicate 42 CHR ''a'')))
        TOKEN_NAME (string_bytes (replicate 186 CHR ''b''))
   \<and> counted_token_fits roomy_globals TOKEN_STRING (string_bytes (replicate 511 CHR ''a''))
   \<and> parse_token \<lparr>infile = CHR 0x22 # replicate 600 CHR ''a'' @ [CHR 0x22], line_no = 1\<rparr>
       roomy_globals
   = Inr (True, \<lparr>infile = [], line_no = 1\<rparr>,
          write_bytes (write_dword (write_word roomy_globals TOKEN_STRING) 511)
            (string_bytes (replicate 511 CHR ''a'')))
   \<and> parse_token \<lparr>infile = CHR 0x22 # replicate 600 CHR ''a'' @ [CHR 0x22], line_no = 1\<rparr>
       roomy_globals
   \<noteq> Inr (True, \<lparr>infile = [], line_no = 1\<rparr>,
          write_bytes (write_dword (write_word roomy_globals TOKEN_STRING) 512)
            (string_bytes (replicate 512 CHR ''a'')))"
proof -
  have tok: "parse_token \<lparr>infile = CHR 0x22 # replicate 600 CHR ''a'' @ [CHR 0x22], line_no = 1\<rparr>
       roomy_globals
   = Inr (True, \<lparr>infile = [], line_no = 1\<rparr>,
          write_bytes (write_dword (write_word roomy_globals TOKEN_STRING) 511)
            (string_bytes (replicate 511 CHR ''a'')))"
    using string_token_closed[of "replicate 600 CHR ''a''" "[]" 1 roomy_globals]
    by (simp add: newlines_def)
  have "write_bytes (write_dword (write_word roomy_globals TOKEN_STRING) 511)
            (string_bytes (replicate 511 CHR ''a''))
     \<noteq> write_bytes (write_dword (write_word roomy_globals TOKEN_STRING) 512)
            (string_bytes (replicate 512 CHR ''a''))"
    by (rule states_differ) simp
  with tok roomy_reached started_fits(1,4,5)
    roomy_token_fits[of "string_bytes (replicate 511 CHR ''a'')" TOKEN_STRING]
  show ?thesis by simp
qed

end
